theory Spec2Isabelle
  imports Complex_Main
begin

section \<open>Printing numbers\<close>

text \<open>Decimal digits of a natural number, as a template literal prints it.\<close>

fun show_nat :: "nat \<Rightarrow> string" where
  "show_nat n =
     (if n < 10 then [char_of (48 + n)]
      else show_nat (n div 10) @ [char_of (48 + n mod 10)])"

declare show_nat.simps [simp del]

section \<open>Errors\<close>

text \<open>The error a component can throw: reading a property of \<open>null\<close>, or what
  \<open>JSON.stringify\<close> throws.\<close>

datatype js_error = TypeError

section \<open>Theme store (stores/useThemeStore)\<close>

text \<open>
  The type \<open>Theme\<close> is imported by the store from \<open>@/types\<close>; the specification gives
  its three values \<open>light | dark | auto\<close>. \<open>ResolvedTheme\<close> is declared in the store
  itself as \<open>'light' | 'dark'\<close>.
\<close>

datatype Theme = Light | Dark | Auto

datatype ResolvedTheme = ResolvedLight | ResolvedDark

text \<open>
  The store's two data fields, together with the parts of the browser the store reads
  and writes: whether \<open>window.matchMedia\<close> exists, whether the media query
  \<open>(prefers-color-scheme: dark)\<close> matches, the \<open>data-theme\<close> attribute of the root
  element, and the change listeners registered on the media query (each registration
  is identified by a number, so that the clean-up closure returned by
  \<open>initializeTheme\<close> removes its own listener only).
\<close>

record theme_world =
  theme :: Theme
  resolvedTheme :: ResolvedTheme
  has_matchMedia :: bool
  prefers_dark :: bool
  data_theme :: "string option"
  listeners :: "nat list"
  next_listener :: nat

definition getSystemTheme :: "theme_world \<Rightarrow> ResolvedTheme" where
  "getSystemTheme w =
     (if has_matchMedia w \<and> prefers_dark w then ResolvedDark else ResolvedLight)"

definition applyTheme :: "ResolvedTheme \<Rightarrow> theme_world \<Rightarrow> theme_world" where
  "applyTheme resolved w =
     (let currentTheme = data_theme w;
          targetTheme = (if resolved = ResolvedDark then Some ''dark'' else None)
      in if targetTheme = Some ''dark''
         then (if currentTheme \<noteq> Some ''dark'' then w\<lparr>data_theme := Some ''dark''\<rparr> else w)
         else (if currentTheme \<noteq> None then w\<lparr>data_theme := None\<rparr> else w))"

text \<open>\<open>theme === 'auto' ? getSystemTheme() : theme\<close>\<close>

definition resolve :: "Theme \<Rightarrow> theme_world \<Rightarrow> ResolvedTheme" where
  "resolve t w =
     (case t of Auto \<Rightarrow> getSystemTheme w | Light \<Rightarrow> ResolvedLight | Dark \<Rightarrow> ResolvedDark)"

definition setTheme :: "Theme \<Rightarrow> theme_world \<Rightarrow> theme_world" where
  "setTheme t w =
     (let resolved = resolve t w;
          w1 = applyTheme resolved w
      in w1\<lparr>theme := t, resolvedTheme := resolved\<rparr>)"

text \<open>\<open>Array.prototype.indexOf\<close>: the first index of the element, \<open>-1\<close> when absent.\<close>

fun indexOf :: "'a list \<Rightarrow> 'a \<Rightarrow> int" where
  "indexOf [] x = -1"
| "indexOf (y # ys) x =
     (if y = x then 0 else (let i = indexOf ys x in if i < 0 then -1 else i + 1))"

definition theme_order :: "Theme list" where
  "theme_order = [Light, Dark, Auto]"

definition cycleTheme :: "theme_world \<Rightarrow> theme_world" where
  "cycleTheme w =
     (let currentIndex = indexOf theme_order (theme w);
          nextTheme = theme_order ! nat ((currentIndex + 1) mod int (length theme_order));
          resolved = resolve nextTheme w;
          w1 = applyTheme resolved w
      in w1\<lparr>theme := nextTheme, resolvedTheme := resolved\<rparr>)"

text \<open>The listener that \<open>initializeTheme\<close> registers on the media query.\<close>

definition theme_listener :: "theme_world \<Rightarrow> theme_world" where
  "theme_listener w =
     (if theme w = Auto
      then (let newResolved = getSystemTheme w;
                w1 = applyTheme newResolved w
            in w1\<lparr>resolvedTheme := newResolved\<rparr>)
      else w)"

text \<open>
  \<open>initializeTheme\<close> returns a clean-up closure: \<open>None\<close> stands for the empty closure
  returned when \<open>window.matchMedia\<close> is missing, \<open>Some i\<close> for the closure that removes
  listener \<open>i\<close>.
\<close>

definition initializeTheme :: "theme_world \<Rightarrow> theme_world \<times> nat option" where
  "initializeTheme w =
     (let resolved = resolve (theme w) w;
          w1 = applyTheme resolved w;
          w2 = w1\<lparr>resolvedTheme := resolved\<rparr>
      in if \<not> has_matchMedia w2 then (w2, None)
         else (w2\<lparr>listeners := listeners w2 @ [next_listener w2],
                   next_listener := Suc (next_listener w2)\<rparr>,
               Some (next_listener w2)))"

definition theme_cleanup :: "nat option \<Rightarrow> theme_world \<Rightarrow> theme_world" where
  "theme_cleanup c w =
     (case c of None \<Rightarrow> w | Some i \<Rightarrow> w\<lparr>listeners := removeAll i (listeners w)\<rparr>)"

text \<open>
  What can happen to the store: its three operations, a clean-up closure being called,
  and the operating system's preference changing, which flips the media query and
  dispatches a change event to every registered listener.
\<close>

datatype theme_event =
  SetTheme Theme | CycleTheme | InitializeTheme | Cleanup "nat option" | PreferenceChange

definition theme_step :: "theme_event \<Rightarrow> theme_world \<Rightarrow> theme_world" where
  "theme_step ev w =
     (case ev of
        SetTheme t \<Rightarrow> setTheme t w
      | CycleTheme \<Rightarrow> cycleTheme w
      | InitializeTheme \<Rightarrow> fst (initializeTheme w)
      | Cleanup c \<Rightarrow> theme_cleanup c w
      | PreferenceChange \<Rightarrow>
          (let w1 = w\<lparr>prefers_dark := \<not> prefers_dark w\<rparr>
           in fold (\<lambda>_. theme_listener) (listeners w1) w1))"

fun theme_run :: "theme_event list \<Rightarrow> theme_world \<Rightarrow> theme_world" where
  "theme_run [] w = w"
| "theme_run (ev # evs) w = theme_run evs (theme_step ev w)"

text \<open>
  An event runs code of the store when it is one of the three operations, or a
  preference change that reaches at least one registered listener.
\<close>

definition runs_store_code :: "theme_event \<Rightarrow> theme_world \<Rightarrow> bool" where
  "runs_store_code ev w =
     (case ev of
        SetTheme t \<Rightarrow> True
      | CycleTheme \<Rightarrow> True
      | InitializeTheme \<Rightarrow> True
      | Cleanup c \<Rightarrow> False
      | PreferenceChange \<Rightarrow> listeners w \<noteq> [])"

definition theme_invariant :: "theme_world \<Rightarrow> bool" where
  "theme_invariant w =
     (resolvedTheme w =
        (case theme w of
           Light \<Rightarrow> ResolvedLight
         | Dark \<Rightarrow> ResolvedDark
         | Auto \<Rightarrow> (if has_matchMedia w \<and> prefers_dark w then ResolvedDark else ResolvedLight)))"

definition explicit_resolved :: "theme_world \<Rightarrow> bool" where
  "explicit_resolved w =
     (case theme w of
        Light \<Rightarrow> resolvedTheme w = ResolvedLight
      | Dark \<Rightarrow> resolvedTheme w = ResolvedDark
      | Auto \<Rightarrow> True)"

text \<open>The store as created: \<open>theme: 'auto'\<close>, \<open>resolvedTheme: 'light'\<close>, no listener yet.\<close>

definition initial_theme_world :: "bool \<Rightarrow> bool \<Rightarrow> theme_world" where
  "initial_theme_world mm dark =
     \<lparr>theme = Auto, resolvedTheme = ResolvedLight, has_matchMedia = mm, prefers_dark = dark,
      data_theme = None, listeners = [], next_listener = 0\<rparr>"

text \<open>
  Either no listener is registered, or the resolved value already agrees with an explicit
  theme: what a registered listener relies on when the theme is not \<open>auto\<close>.
\<close>

definition listener_ready :: "theme_world \<Rightarrow> bool" where
  "listener_ready w = (listeners w = [] \<or> explicit_resolved w)"


section \<open>Drawer scroll lock (components/ui/Drawer.tsx)\<close>

definition DRAWER_LOCK_CLASS :: string where
  "DRAWER_LOCK_CLASS = ''drawer-open''"

text \<open>
  The module-level counter and the document. \<open>document\<close> is \<open>None\<close> where
  \<open>typeof document === 'undefined'\<close>; \<open>body\<close> and \<open>documentElement\<close> hold the class
  list of the element, \<open>None\<close> where the element is \<open>null\<close> (the code reaches both
  through \<open>?.\<close>).
\<close>

record dom_document =
  body :: "string set option"
  documentElement :: "string set option"

record drawer_world =
  activeDrawerCount :: int
  document :: "dom_document option"

definition classList_add :: "string \<Rightarrow> dom_document \<Rightarrow> dom_document" where
  "classList_add c d =
     d\<lparr>body := map_option (insert c) (body d),
       documentElement := map_option (insert c) (documentElement d)\<rparr>"

definition classList_remove :: "string \<Rightarrow> dom_document \<Rightarrow> dom_document" where
  "classList_remove c d =
     d\<lparr>body := map_option (\<lambda>cl. cl - {c}) (body d),
       documentElement := map_option (\<lambda>cl. cl - {c}) (documentElement d)\<rparr>"

definition lockScroll :: "drawer_world \<Rightarrow> drawer_world" where
  "lockScroll w =
     (case document w of
        None \<Rightarrow> w
      | Some d \<Rightarrow>
          (let w1 = (if activeDrawerCount w = 0
                     then w\<lparr>document := Some (classList_add DRAWER_LOCK_CLASS d)\<rparr>
                     else w)
           in w1\<lparr>activeDrawerCount := activeDrawerCount w1 + 1\<rparr>))"

definition unlockScroll :: "drawer_world \<Rightarrow> drawer_world" where
  "unlockScroll w =
     (case document w of
        None \<Rightarrow> w
      | Some d \<Rightarrow>
          (let w1 = w\<lparr>activeDrawerCount := max 0 (activeDrawerCount w - 1)\<rparr>
           in if activeDrawerCount w1 = 0
              then w1\<lparr>document := Some (classList_remove DRAWER_LOCK_CLASS d)\<rparr>
              else w1))"

datatype scroll_call = Lock | Unlock

fun scroll_step :: "scroll_call \<Rightarrow> drawer_world \<Rightarrow> drawer_world" where
  "scroll_step Lock w = lockScroll w"
| "scroll_step Unlock w = unlockScroll w"

fun scroll_run :: "scroll_call list \<Rightarrow> drawer_world \<Rightarrow> drawer_world" where
  "scroll_run [] w = w"
| "scroll_run (c # cs) w = scroll_run cs (scroll_step c w)"

text \<open>The class lists of the elements that exist, body first.\<close>

definition class_lists :: "drawer_world \<Rightarrow> string set list" where
  "class_lists w =
     (case document w of
        None \<Rightarrow> []
      | Some d \<Rightarrow> List.map_filter (\<lambda>x. x) [body d, documentElement d])"

definition scroll_locked :: "string set \<Rightarrow> bool" where
  "scroll_locked cl = (DRAWER_LOCK_CLASS \<in> cl)"

text \<open>
  A module freshly loaded into a page: the counter is 0 and no element carries the
  class.
\<close>

definition fresh_drawer_world :: "drawer_world \<Rightarrow> bool" where
  "fresh_drawer_world w =
     (activeDrawerCount w = 0 \<and> list_all (\<lambda>cl. \<not> scroll_locked cl) (class_lists w))"

text \<open>
  The calls a set of mounted drawers can make: \<open>unlockScroll\<close> is the clean-up of an
  effect that called \<open>lockScroll\<close>, so no prefix has more unlocks than locks.
  \<open>holders\<close> counts the drawers holding the lock after the calls, starting from \<open>n\<close>.
\<close>

fun holders :: "scroll_call list \<Rightarrow> nat \<Rightarrow> nat option" where
  "holders [] n = Some n"
| "holders (Lock # cs) n = holders cs (Suc n)"
| "holders (Unlock # cs) n = (case n of 0 \<Rightarrow> None | Suc m \<Rightarrow> holders cs m)"

text \<open>The counter is not negative and the class is present exactly when it is positive.\<close>

definition scroll_inv :: "drawer_world \<Rightarrow> bool" where
  "scroll_inv w =
     (0 \<le> activeDrawerCount w \<and>
      list_all (\<lambda>cl. scroll_locked cl = (0 < activeDrawerCount w)) (class_lists w))"

text \<open>A page with both elements, the body carrying a class of its own.\<close>

definition page_world :: drawer_world where
  "page_world = \<lparr>activeDrawerCount = 0,
      document = Some \<lparr>body = Some {''app''}, documentElement = Some {}\<rparr>\<rparr>"


section \<open>Pagination (components/ui/Pagination.tsx)\<close>

text \<open>
  The props \<open>current\<close>, \<open>total\<close> and \<open>pageSize\<close> are taken to be integers. The
  quotient \<open>total / pageSize\<close> is then a rational number, or, when \<open>pageSize\<close> is 0,
  one of the three values JavaScript gives a division by zero; \<open>jsnum\<close> holds the
  values \<open>totalPages\<close> can take. Comparisons with \<open>NaN\<close> are false.
\<close>

datatype jsnum = Fin int | PosInf | NegInf | NaN

fun js_le :: "jsnum \<Rightarrow> jsnum \<Rightarrow> bool" where
  "js_le NaN y = False"
| "js_le x NaN = False"
| "js_le (Fin a) (Fin b) = (a \<le> b)"
| "js_le NegInf y = True"
| "js_le x PosInf = True"
| "js_le PosInf y = False"
| "js_le x NegInf = False"

fun js_lt :: "jsnum \<Rightarrow> jsnum \<Rightarrow> bool" where
  "js_lt NaN y = False"
| "js_lt x NaN = False"
| "js_lt (Fin a) (Fin b) = (a < b)"
| "js_lt PosInf y = False"
| "js_lt x NegInf = False"
| "js_lt NegInf y = True"
| "js_lt x PosInf = True"

definition js_gt :: "jsnum \<Rightarrow> jsnum \<Rightarrow> bool" where
  "js_gt x y = js_lt y x"

definition js_ge :: "jsnum \<Rightarrow> jsnum \<Rightarrow> bool" where
  "js_ge x y = js_le y x"

text \<open>Strict equality \<open>===\<close> on numbers.\<close>

definition js_eq :: "jsnum \<Rightarrow> jsnum \<Rightarrow> bool" where
  "js_eq x y = (x \<noteq> NaN \<and> x = y)"

text \<open>Adding an integer: \<open>x + k\<close>, \<open>x - k\<close>.\<close>

fun js_add :: "jsnum \<Rightarrow> int \<Rightarrow> jsnum" where
  "js_add (Fin a) k = Fin (a + k)"
| "js_add x k = x"

text \<open>\<open>Math.ceil(total / pageSize)\<close> on integers.\<close>

definition totalPages :: "int \<Rightarrow> int \<Rightarrow> jsnum" where
  "totalPages total' pageSize' =
     (if pageSize' = 0
      then (if total' = 0 then NaN else if 0 < total' then PosInf else NegInf)
      else Fin (- ((- total') div pageSize')))"

text \<open>An entry of the page list: a number, or the string \<open>'...'\<close>.\<close>

datatype page = PageNumber jsnum | PageText string

text \<open>
  \<open>for (let i = a; i <= n; i++) pages.push(i)\<close> on integer bounds.
\<close>

function push_range :: "int \<Rightarrow> int \<Rightarrow> page list \<Rightarrow> page list" where
  "push_range i n pages =
     (if i \<le> n then push_range (i + 1) n (pages @ [PageNumber (Fin i)]) else pages)"
  by pat_completeness auto
termination
  by (relation "measure (\<lambda>(i, n, pages). nat (n + 1 - i))") auto

declare push_range.simps [simp del]

text \<open>
  The same loop on the values the bounds can take. It runs no iteration when the first
  test fails; it never ends (\<open>None\<close>) when the test holds and a bound is infinite,
  since \<open>i++\<close> then never gets past the bound.
\<close>

definition for_push :: "jsnum \<Rightarrow> jsnum \<Rightarrow> page list \<Rightarrow> page list option" where
  "for_push a b pages =
     (if \<not> js_le a b then Some pages
      else (case (a, b) of
              (Fin i, Fin n) \<Rightarrow> Some (push_range i n pages)
            | _ \<Rightarrow> None))"

definition getPageNumbers :: "int \<Rightarrow> jsnum \<Rightarrow> page list option" where
  "getPageNumbers current tp =
     (if js_le tp (Fin 7) then for_push (Fin 1) tp []
      else if current \<le> 3 then
        (case for_push (Fin 1) (Fin 5) [] of
           None \<Rightarrow> None
         | Some pages \<Rightarrow> Some (pages @ [PageText ''...''] @ [PageNumber tp]))
      else if js_ge (Fin current) (js_add tp (- 2)) then
        for_push (js_add tp (- 4)) tp ([PageNumber (Fin 1)] @ [PageText ''...''])
      else
        (case for_push (Fin (current - 1)) (Fin (current + 1))
                ([PageNumber (Fin 1)] @ [PageText ''...'']) of
           None \<Rightarrow> None
         | Some pages \<Rightarrow> Some (pages @ [PageText ''...''] @ [PageNumber tp])))"

text \<open>
  \<open>handlePageChange\<close>: the result is the list of calls made to \<open>onPageChange\<close>, each
  with its argument.
\<close>

definition handlePageChange :: "int \<Rightarrow> jsnum \<Rightarrow> jsnum \<Rightarrow> jsnum list" where
  "handlePageChange current tp page =
     (if js_lt page (Fin 1) \<or> js_gt page tp \<or> js_eq page (Fin current) then []
      else [page])"

text \<open>
  The props (the field \<open>total\<close> is named \<open>total_prop\<close> here). \<open>pageSize\<close>, \<open>pageSizeOptions\<close> and \<open>showPageSizeSelector\<close> are optional
  and have defaults; \<open>onPageSizeChange\<close> is optional, and only its presence matters to
  what is rendered.
\<close>

record PaginationProps =
  current :: int
  total_prop :: int
  pageSize :: "int option"
  pageSizeOptions :: "int list option"
  showPageSizeSelector :: "bool option"
  has_onPageSizeChange :: bool

text \<open>
  What the component renders: the record range, the page-size selector (its options)
  when shown, and the row of buttons. A button carries its \<open>disabled\<close> flag and the
  calls to \<open>onPageChange\<close> that a click on it makes.
\<close>

datatype page_item =
  PageButton jsnum bool "jsnum list"
| PageEllipsis string

record pagination_view =
  range_start :: int
  range_end :: int
  range_total :: int
  size_selector :: "int list option"
  first_button :: "bool \<times> jsnum list"
  prev_button :: "bool \<times> jsnum list"
  page_items :: "page_item list"
  next_button :: "bool \<times> jsnum list"
  last_button :: "bool \<times> jsnum list"

datatype pagination_render = RenderNull | RenderView pagination_view

definition Pagination :: "PaginationProps \<Rightarrow> pagination_render option" where
  "Pagination props =
     (let pageSize' = (case pageSize props of None \<Rightarrow> 20 | Some s \<Rightarrow> s);
          pageSizeOptions' = (case pageSizeOptions props of None \<Rightarrow> [10, 20, 50, 100] | Some os \<Rightarrow> os);
          showPageSizeSelector' = (case showPageSizeSelector props of None \<Rightarrow> True | Some b \<Rightarrow> b);
          tp = totalPages (total_prop props) pageSize';
          start = (if total_prop props = 0 then 0 else (current props - 1) * pageSize' + 1);
          end' = min (current props * pageSize') (total_prop props);
          click = handlePageChange (current props) tp
      in if total_prop props = 0 then Some RenderNull
         else (case getPageNumbers (current props) tp of
                 None \<Rightarrow> None
               | Some pages \<Rightarrow>
                   Some (RenderView
                     \<lparr>range_start = start,
                      range_end = end',
                      range_total = total_prop props,
                      size_selector =
                        (if showPageSizeSelector' \<and> has_onPageSizeChange props
                         then Some pageSizeOptions' else None),
                      first_button = (current props = 1, click (Fin 1)),
                      prev_button = (current props = 1, click (Fin (current props - 1))),
                      page_items =
                        map (\<lambda>p. case p of
                                    PageNumber n \<Rightarrow> PageButton n (js_eq n (Fin (current props))) (click n)
                                  | PageText s \<Rightarrow> PageEllipsis s) pages,
                      next_button = (js_eq (Fin (current props)) tp, click (Fin (current props + 1))),
                      last_button = (js_eq (Fin (current props)) tp, click tp)\<rparr>)))"

text \<open>
  The page window in the words of the specification, for \<open>tp\<close> pages and the current
  page \<open>cur\<close>; it is compared with \<open>getPageNumbers\<close> below.
\<close>

definition window_as_specified :: "int \<Rightarrow> int \<Rightarrow> page list" where
  "window_as_specified cur tp =
     (if tp \<le> 7 then map (\<lambda>i. PageNumber (Fin i)) [1..tp]
      else if cur \<le> 3 then
        [PageNumber (Fin 1), PageNumber (Fin 2), PageNumber (Fin 3), PageNumber (Fin 4),
         PageNumber (Fin 5), PageText ''...'', PageNumber (Fin tp)]
      else if tp - 2 \<le> cur then
        [PageNumber (Fin 1), PageText ''...'', PageNumber (Fin (tp - 4)),
         PageNumber (Fin (tp - 3)), PageNumber (Fin (tp - 2)), PageNumber (Fin (tp - 1)),
         PageNumber (Fin tp)]
      else
        [PageNumber (Fin 1), PageText ''...'', PageNumber (Fin (cur - 1)),
         PageNumber (Fin cur), PageNumber (Fin (cur + 1)), PageText ''...'',
         PageNumber (Fin tp)])"



section \<open>Activity heatmap (components/analytics/ActivityHeatmap.tsx)\<close>

text \<open>
  The types \<open>ActivityHeatmapDay\<close> and \<open>ActivityHeatmap\<close> are imported from
  \<open>@/services/api/usageRecords\<close>; the fields below are the ones the component reads.
  \<open>days\<close> is \<open>None\<close> where the field is missing (the code reads it through \<open>?.\<close>).
\<close>

record ActivityHeatmapDay =
  date :: string
  requests :: int
  total_tokens :: int

record ActivityHeatmapData =
  days :: "ActivityHeatmapDay list option"
  max_requests :: int

text \<open>
  The platform's \<open>Date\<close>, as far as the component uses it. \<open>parse_day api s\<close> is the
  day number (days since 1 January 1970, UTC) of \<open>new Date(s + 'T00:00:00Z')\<close>, and
  \<open>None\<close> for an invalid date; \<open>month_from_day\<close> is the month (0 to 11) that a day
  number falls in. \<open>getUTCDay\<close> is the weekday as ECMAScript defines it,
  \<open>(Day(t) + 4) modulo 7\<close> with Sunday 0; both getters give \<open>NaN\<close> on an invalid date.
\<close>

record date_api =
  parse_day :: "string \<Rightarrow> int option"
  month_from_day :: "int \<Rightarrow> int"

definition getUTCDay :: "date_api \<Rightarrow> string \<Rightarrow> jsnum" where
  "getUTCDay api s = (case parse_day api s of None \<Rightarrow> NaN | Some d \<Rightarrow> Fin ((d + 4) mod 7))"

definition getUTCMonth :: "date_api \<Rightarrow> string \<Rightarrow> jsnum" where
  "getUTCMonth api s = (case parse_day api s of None \<Rightarrow> NaN | Some d \<Rightarrow> Fin (month_from_day api d))"

text \<open>
  \<open>MONTHS\<close>: the month numbers 1 to 12, each followed by the character U+6708, here
  in UTF-8.
  \<open>months_at\<close> is the indexing \<open>MONTHS[month]\<close>, \<open>None\<close> for \<open>undefined\<close>.
\<close>

definition month_suffix :: string where
  "month_suffix = [char_of (0xE6::nat), char_of (0x9C::nat), char_of (0x88::nat)]"

definition MONTHS :: "string list" where
  "MONTHS = map (\<lambda>n. show_nat n @ month_suffix) [1..<13]"

definition months_at :: "jsnum \<Rightarrow> string option" where
  "months_at m =
     (case m of
        Fin k \<Rightarrow> (if 0 \<le> k \<and> k < int (length MONTHS) then Some (MONTHS ! nat k) else None)
      | _ \<Rightarrow> None)"

text \<open>The placeholder cell \<open>{ date: '', requests: -1, total_tokens: 0 }\<close>.\<close>

definition placeholder :: ActivityHeatmapDay where
  "placeholder = \<lparr>date = '''', requests = - 1, total_tokens = 0\<rparr>"

text \<open>\<open>for (let i = 0; i < startDayOfWeek; i++) currentWeek.push(placeholder)\<close>\<close>

function pad_front :: "int \<Rightarrow> int \<Rightarrow> ActivityHeatmapDay list \<Rightarrow> ActivityHeatmapDay list" where
  "pad_front i n week = (if i < n then pad_front (i + 1) n (week @ [placeholder]) else week)"
  by pat_completeness auto
termination
  by (relation "measure (\<lambda>(i, n, week). nat (n - i))") auto

declare pad_front.simps [simp del]

text \<open>
  The same loop on what \<open>getUTCDay\<close> can return: an integer, or \<open>NaN\<close>, for which the
  test \<open>i < NaN\<close> fails at once. (\<open>getUTCDay\<close> returns no infinite value; the loop
  would not end on \<open>Infinity\<close>.)
\<close>

definition pad_first_week :: "jsnum \<Rightarrow> ActivityHeatmapDay list \<Rightarrow> ActivityHeatmapDay list option" where
  "pad_first_week start week =
     (case start of
        Fin n \<Rightarrow> Some (pad_front 0 n week)
      | PosInf \<Rightarrow> None
      | _ \<Rightarrow> Some week)"

text \<open>\<open>while (currentWeek.length < 7) currentWeek.push(placeholder)\<close>\<close>

function pad_back :: "ActivityHeatmapDay list \<Rightarrow> ActivityHeatmapDay list" where
  "pad_back week = (if length week < 7 then pad_back (week @ [placeholder]) else week)"
  by pat_completeness auto
termination
  by (relation "measure (\<lambda>week. 7 - length week)") auto

declare pad_back.simps [simp del]

text \<open>The variables of the \<open>useMemo\<close> body, and the body of its \<open>forEach\<close>.\<close>

record heat_state =
  weeks :: "ActivityHeatmapDay list list"
  monthLabels :: "(string option \<times> nat) list"
  currentWeek :: "ActivityHeatmapDay list"
  currentMonth :: jsnum

definition heat_each :: "date_api \<Rightarrow> ActivityHeatmapDay \<Rightarrow> heat_state \<Rightarrow> heat_state" where
  "heat_each api day st =
     (let month = getUTCMonth api (date day);
          dayOfWeek = getUTCDay api (date day);
          st1 = (if \<not> js_eq month (currentMonth st)
                 then st\<lparr>currentMonth := month,
                         monthLabels := monthLabels st @ [(months_at month, length (weeks st))]\<rparr>
                 else st);
          st2 = st1\<lparr>currentWeek := currentWeek st1 @ [day]\<rparr>
      in if js_eq dayOfWeek (Fin 6)
         then st2\<lparr>weeks := weeks st2 @ [currentWeek st2], currentWeek := []\<rparr>
         else st2)"

text \<open>
  The \<open>useMemo\<close> that computes \<open>weeks\<close> and \<open>monthLabels\<close>; \<open>None\<close> only where the
  padding loop would not end.
\<close>

definition heat_weeks ::
  "date_api \<Rightarrow> ActivityHeatmapData option
     \<Rightarrow> (ActivityHeatmapDay list list \<times> (string option \<times> nat) list) option" where
  "heat_weeks api data =
     (case data of
        None \<Rightarrow> Some ([], [])
      | Some d \<Rightarrow>
          (case days d of
             None \<Rightarrow> Some ([], [])
           | Some [] \<Rightarrow> Some ([], [])
           | Some (first # rest) \<Rightarrow>
               (let startDayOfWeek = getUTCDay api (date first)
                in case pad_first_week startDayOfWeek [] of
                     None \<Rightarrow> None
                   | Some week0 \<Rightarrow>
                       (let st0 = \<lparr>weeks = [], monthLabels = [], currentWeek = week0,
                                   currentMonth = Fin (- 1)\<rparr>;
                            st = fold (heat_each api) (first # rest) st0;
                            st' = (if 0 < length (currentWeek st)
                                   then st\<lparr>weeks := weeks st @ [pad_back (currentWeek st)]\<rparr>
                                   else st)
                        in Some (weeks st', monthLabels st')))))"

text \<open>
  Consecutive calendar days: each date is valid and its day number is the one before
  plus 1.
\<close>

fun consecutive_from :: "date_api \<Rightarrow> int \<Rightarrow> ActivityHeatmapDay list \<Rightarrow> bool" where
  "consecutive_from api d [] = True"
| "consecutive_from api d (x # xs) =
     (parse_day api (date x) = Some d \<and> consecutive_from api (d + 1) xs)"

text \<open>
  A fragment of the calendar for examples: the day numbers of Thursday 4 January 2024
  to Monday 8 January 2024, all in January.
\<close>

definition january_2024 :: date_api where
  "january_2024 =
     \<lparr>parse_day = (\<lambda>s. if s = ''2024-01-04'' then Some 19726
                        else if s = ''2024-01-05'' then Some 19727
                        else if s = ''2024-01-06'' then Some 19728
                        else if s = ''2024-01-07'' then Some 19729
                        else if s = ''2024-01-08'' then Some 19730
                        else None),
      month_from_day = (\<lambda>d. 0)\<rparr>"

definition day_of :: "string \<Rightarrow> int \<Rightarrow> ActivityHeatmapDay" where
  "day_of s n = \<lparr>date = s, requests = n, total_tokens = 10 * n\<rparr>"

definition five_days :: "ActivityHeatmapDay list" where
  "five_days = [day_of ''2024-01-04'' 3, day_of ''2024-01-05'' 0, day_of ''2024-01-06'' 7,
                day_of ''2024-01-07'' 1, day_of ''2024-01-08'' 2]"

text \<open>The \<open>weeks\<close> component of the result.\<close>

definition week_grid :: "date_api \<Rightarrow> ActivityHeatmapData option \<Rightarrow> ActivityHeatmapDay list list option" where
  "week_grid api data = map_option fst (heat_weeks api data)"


subsection \<open>The older heatmap (src/unnamed/part_004)\<close>

text \<open>
  The older copy of the component parses with \<open>new Date(day.date)\<close> and reads
  \<open>getDay()\<close> and \<open>getMonth()\<close>, which work in local time. Of the platform:
  \<open>parse_ms api s\<close> is the time value of \<open>new Date(s)\<close>, in milliseconds since
  1 January 1970 UTC (a date without a time is read as midnight UTC), and \<open>None\<close> for
  an invalid date; \<open>local_offset_ms\<close> is local time minus UTC at a time value. The local
  weekday is that of the day the local time falls in.
\<close>

record local_date_api =
  parse_ms :: "string \<Rightarrow> int option"
  local_offset_ms :: "int \<Rightarrow> int"
  local_month_from_day :: "int \<Rightarrow> int"

definition msPerDay :: int where
  "msPerDay = 86400000"

definition getDay :: "local_date_api \<Rightarrow> string \<Rightarrow> jsnum" where
  "getDay api s =
     (case parse_ms api s of
        None \<Rightarrow> NaN
      | Some t \<Rightarrow> Fin (((t + local_offset_ms api t) div msPerDay + 4) mod 7))"

definition getMonth :: "local_date_api \<Rightarrow> string \<Rightarrow> jsnum" where
  "getMonth api s =
     (case parse_ms api s of
        None \<Rightarrow> NaN
      | Some t \<Rightarrow> Fin (local_month_from_day api ((t + local_offset_ms api t) div msPerDay)))"

definition heat_each_legacy ::
  "local_date_api \<Rightarrow> ActivityHeatmapDay \<Rightarrow> heat_state \<Rightarrow> heat_state" where
  "heat_each_legacy api day st =
     (let month = getMonth api (date day);
          dayOfWeek = getDay api (date day);
          st1 = (if \<not> js_eq month (currentMonth st)
                 then st\<lparr>currentMonth := month,
                         monthLabels := monthLabels st @ [(months_at month, length (weeks st))]\<rparr>
                 else st);
          st2 = st1\<lparr>currentWeek := currentWeek st1 @ [day]\<rparr>
      in if js_eq dayOfWeek (Fin 6)
         then st2\<lparr>weeks := weeks st2 @ [currentWeek st2], currentWeek := []\<rparr>
         else st2)"

definition heat_weeks_legacy ::
  "local_date_api \<Rightarrow> ActivityHeatmapData option
     \<Rightarrow> (ActivityHeatmapDay list list \<times> (string option \<times> nat) list) option" where
  "heat_weeks_legacy api data =
     (case data of
        None \<Rightarrow> Some ([], [])
      | Some d \<Rightarrow>
          (case days d of
             None \<Rightarrow> Some ([], [])
           | Some [] \<Rightarrow> Some ([], [])
           | Some (first # rest) \<Rightarrow>
               (let startDayOfWeek = getDay api (date first)
                in case pad_first_week startDayOfWeek [] of
                     None \<Rightarrow> None
                   | Some week0 \<Rightarrow>
                       (let st0 = \<lparr>weeks = [], monthLabels = [], currentWeek = week0,
                                   currentMonth = Fin (- 1)\<rparr>;
                            st = fold (heat_each_legacy api) (first # rest) st0;
                            st' = (if 0 < length (currentWeek st)
                                   then st\<lparr>weeks := weeks st @ [pad_back (currentWeek st)]\<rparr>
                                   else st)
                        in Some (weeks st', monthLabels st')))))"

text \<open>
  A fragment of the platform in a zone five hours west of UTC: Thursday 4 January 2024
  read as midnight UTC, which is 19:00 on Wednesday there.
\<close>

definition west_of_utc :: local_date_api where
  "west_of_utc =
     \<lparr>parse_ms = (\<lambda>s. if s = ''2024-01-04'' then Some (19726 * 86400000) else None),
      local_offset_ms = (\<lambda>t. - 18000000),
      local_month_from_day = (\<lambda>d. 0)\<rparr>"

definition pad_cell :: ActivityHeatmapDay where
  "pad_cell = \<lparr>date = '''', requests = - 1, total_tokens = 0\<rparr>"

section \<open>Stats tables and charts (components/analytics)\<close>

text \<open>
  The props shared by the four components: the data and the optional flags
  \<open>isLoading\<close> and \<open>hasError\<close> (\<open>None\<close> when left out). The charts take an optional
  \<open>title\<close> as well. The tables take a list of rows, whose type comes from
  \<open>@/services/api/usageRecords\<close>; the charts take a value that may be \<open>null\<close>. For
  the tables \<open>data\<close> is \<open>Some rows\<close>; \<open>None\<close> stands for a \<open>null\<close> passed against the
  type of the prop, on which reading \<open>data.length\<close> throws.
\<close>

record 'd CardProps =
  data :: 'd
  isLoading :: "bool option"
  hasError :: "bool option"

record 'd ChartProps = "'d CardProps" +
  title :: "string option"

text \<open>The test \<open>if (flag)\<close> on an optional boolean.\<close>

definition truthy :: "bool option \<Rightarrow> bool" where
  "truthy flag = (flag = Some True)"

text \<open>
  What a table renders: the loading card, the error card, or the card with the table,
  whose body is the single row with the empty message or one row for each record (the
  formatting of the cells is left out).
\<close>

datatype 'a table_body = EmptyRow | DataRows "'a list"

datatype 'a stats_card = CardLoading | CardError | CardTable "'a table_body"

definition ModelStatsTable :: "'a list option CardProps \<Rightarrow> js_error + 'a stats_card" where
  "ModelStatsTable props =
     (if truthy (isLoading props) then Inr CardLoading
      else if truthy (hasError props) then Inr CardError
      else (case data props of
              None \<Rightarrow> Inl TypeError
            | Some rows \<Rightarrow>
                Inr (CardTable (if length rows = 0 then EmptyRow else DataRows rows))))"

definition ProviderStatsTable :: "'a list option CardProps \<Rightarrow> js_error + 'a stats_card" where
  "ProviderStatsTable props =
     (if truthy (isLoading props) then Inr CardLoading
      else if truthy (hasError props) then Inr CardError
      else (case data props of
              None \<Rightarrow> Inl TypeError
            | Some rows \<Rightarrow>
                Inr (CardTable (if length rows = 0 then EmptyRow else DataRows rows))))"

text \<open>
  The request timeline. \<open>points\<close> is \<open>None\<close> where the field is missing. The chart is
  given by its labels and values; the colours, which follow the resolved theme, are left
  out.
\<close>

record TimelinePoint =
  hour :: string
  requests_at :: int

record RequestTimelineData =
  points :: "TimelinePoint list option"

text \<open>\<open>s.split(' ')\<close>\<close>

fun split_space :: "string \<Rightarrow> string list" where
  "split_space [] = [[]]"
| "split_space (c # cs) =
     (if c = CHR '' '' then [] # split_space cs
      else (case split_space cs of
              [] \<Rightarrow> [[c]]
            | w # ws \<Rightarrow> (c # w) # ws))"

text \<open>\<open>p.hour.split(' ')[1] || p.hour\<close>: the empty string and \<open>undefined\<close> are falsy.\<close>

definition time_part :: "string \<Rightarrow> string" where
  "time_part h =
     (case split_space h of
        a # b # rest \<Rightarrow> (if b = [] then h else b)
      | _ \<Rightarrow> h)"

text \<open>The \<open>reduce\<close> that finds the peak hour, from \<open>{ hour: '', requests: 0 }\<close>.\<close>

definition peak_of :: "TimelinePoint list \<Rightarrow> TimelinePoint" where
  "peak_of ps =
     foldl (\<lambda>m p. if requests_at m < requests_at p then p else m)
       \<lparr>hour = '''', requests_at = 0\<rparr> ps"

record timeline_chart =
  chart_labels :: "string list"
  chart_values :: "int list"
  totalRequests :: int
  peakHour :: "string option"

datatype timeline_view =
  TimelineLoading "string option"
| TimelineError "string option"
| TimelineEmpty "string option"
| TimelineChart "string option" timeline_chart

definition timeline_hasData :: "RequestTimelineData option \<Rightarrow> bool" where
  "timeline_hasData d =
     (case d of
        None \<Rightarrow> False
      | Some t \<Rightarrow> (case points t of None \<Rightarrow> False | Some ps \<Rightarrow> 0 < length ps))"

definition RequestTimeline :: "RequestTimelineData option ChartProps \<Rightarrow> timeline_view" where
  "RequestTimeline props =
     (let ps = (case data props of
                  None \<Rightarrow> []
                | Some t \<Rightarrow> (case points t of None \<Rightarrow> [] | Some ps \<Rightarrow> ps));
          hasData = timeline_hasData (data props);
          peak = peak_of ps
      in if truthy (isLoading props) then TimelineLoading (title props)
         else if truthy (hasError props) then TimelineError (title props)
         else if \<not> hasData then TimelineEmpty (title props)
         else TimelineChart (title props)
                \<lparr>chart_labels = map (\<lambda>p. time_part (hour p)) ps,
                 chart_values = map requests_at ps,
                 totalRequests = sum_list (map requests_at ps),
                 peakHour = (if 0 < requests_at peak then Some (time_part (hour peak))
                             else None)\<rparr>)"

text \<open>
  The activity heatmap: the grid view carries the number of active days, the highest
  request count, the weeks and the month labels.
\<close>

record heat_grid =
  activeDays :: nat
  grid_max_requests :: int
  grid_weeks :: "ActivityHeatmapDay list list"
  grid_monthLabels :: "(string option \<times> nat) list"

datatype heat_view =
  HeatLoading "string option"
| HeatError "string option"
| HeatEmpty "string option"
| HeatGrid "string option" heat_grid

definition heat_hasData :: "ActivityHeatmapData option \<Rightarrow> bool" where
  "heat_hasData d =
     (case d of
        None \<Rightarrow> False
      | Some h \<Rightarrow> (case days h of None \<Rightarrow> False | Some ds \<Rightarrow> 0 < length ds))"

text \<open>
  The component computes \<open>weeks\<close> and \<open>monthLabels\<close> before it looks at the flags, so
  it returns only where that computation does.
\<close>

definition ActivityHeatmap ::
  "date_api \<Rightarrow> ActivityHeatmapData option ChartProps \<Rightarrow> heat_view option" where
  "ActivityHeatmap api props =
     (case heat_weeks api (data props) of
        None \<Rightarrow> None
      | Some (ws, labels) \<Rightarrow>
          (let hasData = heat_hasData (data props);
               ds = (case data props of
                       None \<Rightarrow> []
                     | Some h \<Rightarrow> (case days h of None \<Rightarrow> [] | Some ds \<Rightarrow> ds));
               active = length (filter (\<lambda>d. 0 < requests d) ds)
           in Some
             (if truthy (isLoading props) then HeatLoading (title props)
              else if truthy (hasError props) then HeatError (title props)
              else if \<not> hasData then HeatEmpty (title props)
              else HeatGrid (title props)
                     \<lparr>activeDays = active,
                      grid_max_requests = (case data props of None \<Rightarrow> 0 | Some h \<Rightarrow> max_requests h),
                      grid_weeks = ws,
                      grid_monthLabels = labels\<rparr>)))"

text \<open>
  The four display states, and the state the specification asks for: loading when
  \<open>isLoading\<close> is set, otherwise the error when \<open>hasError\<close> is set, otherwise the
  empty message when there is no data, and the data otherwise.
\<close>

datatype display_state = ShowsLoading | ShowsError | ShowsEmpty | ShowsData

definition state_as_specified :: "bool option \<Rightarrow> bool option \<Rightarrow> bool \<Rightarrow> display_state" where
  "state_as_specified loading failed no_data =
     (if loading = Some True then ShowsLoading
      else if failed = Some True then ShowsError
      else if no_data then ShowsEmpty
      else ShowsData)"

fun card_state :: "'a stats_card \<Rightarrow> display_state" where
  "card_state CardLoading = ShowsLoading"
| "card_state CardError = ShowsError"
| "card_state (CardTable EmptyRow) = ShowsEmpty"
| "card_state (CardTable (DataRows rows)) = ShowsData"

fun timeline_state :: "timeline_view \<Rightarrow> display_state" where
  "timeline_state (TimelineLoading t) = ShowsLoading"
| "timeline_state (TimelineError t) = ShowsError"
| "timeline_state (TimelineEmpty t) = ShowsEmpty"
| "timeline_state (TimelineChart t c) = ShowsData"

fun heat_state_of :: "heat_view \<Rightarrow> display_state" where
  "heat_state_of (HeatLoading t) = ShowsLoading"
| "heat_state_of (HeatError t) = ShowsError"
| "heat_state_of (HeatEmpty t) = ShowsEmpty"
| "heat_state_of (HeatGrid t g) = ShowsData"

text \<open>Data "empty or null", for each kind of data.\<close>

definition no_points :: "RequestTimelineData option \<Rightarrow> bool" where
  "no_points d = (d = None \<or> (\<exists>t. d = Some t \<and> (points t = None \<or> points t = Some [])))"

definition no_days :: "ActivityHeatmapData option \<Rightarrow> bool" where
  "no_days d = (d = None \<or> (\<exists>h. d = Some h \<and> (days h = None \<or> days h = Some [])))"

section \<open>JSON viewer (components/ui/JsonViewer.tsx)\<close>

subsection \<open>Escaping and tokens\<close>

text \<open>\<open>value.replace(/c/g, r)\<close> for a single character \<open>c\<close>.\<close>

definition replace_all :: "char \<Rightarrow> string \<Rightarrow> string \<Rightarrow> string" where
  "replace_all c r s = concat (map (\<lambda>x. if x = c then r else [x]) s)"

text \<open>The double quote character.\<close>

definition dquote :: char where
  "dquote = CHR 0x22"

definition escapeHtml :: "string \<Rightarrow> string" where
  "escapeHtml v =
     replace_all dquote ''&quot;''
       (replace_all CHR ''>'' ''&gt;''
         (replace_all CHR ''<'' ''&lt;''
           (replace_all CHR ''&'' ''&amp;'' v)))"

datatype token_type =
  TKey | TString | TNumber | TBoolean | TNull | TBracket | TPunctuation | TEllipsis

fun classMap :: "token_type \<Rightarrow> string" where
  "classMap TKey = ''token-key''"
| "classMap TString = ''token-string''"
| "classMap TNumber = ''token-number''"
| "classMap TBoolean = ''token-boolean''"
| "classMap TNull = ''token-null''"
| "classMap TBracket = ''token-bracket''"
| "classMap TPunctuation = ''token-punctuation''"
| "classMap TEllipsis = ''token-ellipsis''"

definition getTokenHtml :: "string \<Rightarrow> token_type \<Rightarrow> string" where
  "getTokenHtml v ty =
     ''<span class='' @ [dquote] @ classMap ty @ [dquote] @ ''>'' @ escapeHtml v @ ''</span>''"

subsection \<open>Values and lines\<close>

text \<open>
  The values \<open>processValue\<close> tells apart. A number is held as the text that
  \<open>String(value)\<close> gives for it, and \<open>JOther\<close> holds that text for a value of none of
  the other kinds (\<open>undefined\<close>, a function, a symbol, a bigint). An object is held as
  whether it is a plain one, that is, whether \<open>Object.prototype.toString\<close> gives
  \<open>[object Object]\<close> for it (\<open>JSON.parse\<close> returns no other objects), and its entries in
  the order of \<open>Object.keys\<close>.
\<close>

datatype json =
  JNull
| JBool bool
| JNumber string
| JString string
| JArray "json list"
| JObject bool "(string \<times> json) list"
| JOther string

text \<open>The field \<open>id\<close> of a line is named \<open>line_id\<close> here.\<close>

record JsonLine =
  line_id :: nat
  lineNumber :: nat
  indent :: nat
  html :: string
  canFold :: bool
  blockId :: string
  blockEnd :: "nat option"
  collapsedInfo :: "string option"
  closingBracket :: "string option"
  trailingComma :: "string option"

text \<open>The variables of \<open>parseJsonToLines\<close> that \<open>processValue\<close> updates.\<close>

record parse_state =
  result :: "JsonLine list"
  next_lineNumber :: nat
  blockIdCounter :: nat

text \<open>\<open>getBlockId\<close>: the id \<open>block-n\<close>, and the counter incremented.\<close>

definition block_name :: "nat \<Rightarrow> string" where
  "block_name n = ''block-'' @ show_nat n"

definition getBlockId :: "parse_state \<Rightarrow> string \<times> parse_state" where
  "getBlockId st = (block_name (blockIdCounter st), st\<lparr>blockIdCounter := blockIdCounter st + 1\<rparr>)"

text \<open>The two kinds of \<open>result.push\<close>: a plain line, and the first line of a block.\<close>

definition push_line :: "nat \<Rightarrow> string \<Rightarrow> parse_state \<Rightarrow> parse_state" where
  "push_line ind h st =
     st\<lparr>result := result st @
           [\<lparr>line_id = length (result st), lineNumber = next_lineNumber st, indent = ind,
             html = h, canFold = False, blockId = '''', blockEnd = None,
             collapsedInfo = None, closingBracket = None, trailingComma = None\<rparr>],
        next_lineNumber := next_lineNumber st + 1\<rparr>"

definition push_block_start ::
  "nat \<Rightarrow> string \<Rightarrow> string \<Rightarrow> string \<Rightarrow> string \<Rightarrow> string \<Rightarrow> parse_state \<Rightarrow> parse_state" where
  "push_block_start ind h bid info closing comma st =
     st\<lparr>result := result st @
           [\<lparr>line_id = length (result st), lineNumber = next_lineNumber st, indent = ind,
             html = h, canFold = True, blockId = bid, blockEnd = None,
             collapsedInfo = Some info, closingBracket = Some closing,
             trailingComma = Some comma\<rparr>],
        next_lineNumber := next_lineNumber st + 1\<rparr>"

text \<open>\<open>result[startLine].blockEnd = result.length - 1\<close>\<close>

definition set_blockEnd :: "nat \<Rightarrow> parse_state \<Rightarrow> parse_state" where
  "set_blockEnd startLine st =
     st\<lparr>result := (result st)
           [startLine := (result st ! startLine)\<lparr>blockEnd := Some (length (result st) - 1)\<rparr>]\<rparr>"

definition comma_of :: "bool \<Rightarrow> string" where
  "comma_of isLast = (if isLast then '''' else '','')"

definition key_prefix :: "string \<Rightarrow> string" where
  "key_prefix key =
     getTokenHtml ([dquote] @ key @ [dquote]) TKey @ getTokenHtml '': '' TPunctuation"

text \<open>
  \<open>processValue\<close>, with the two \<open>forEach\<close> loops over the items of an array and the
  keys of an object; an item is the last one when none follows it.
\<close>

fun processValue :: "json \<Rightarrow> nat \<Rightarrow> bool \<Rightarrow> string \<Rightarrow> parse_state \<Rightarrow> parse_state"
  and processItems :: "json list \<Rightarrow> nat \<Rightarrow> parse_state \<Rightarrow> parse_state"
  and processEntries :: "(string \<times> json) list \<Rightarrow> nat \<Rightarrow> parse_state \<Rightarrow> parse_state"
where
  "processValue JNull ind isLast keyPrefix st =
     push_line ind (keyPrefix @ getTokenHtml ''null'' TNull @ comma_of isLast) st"
| "processValue (JBool b) ind isLast keyPrefix st =
     push_line ind
       (keyPrefix @ getTokenHtml (if b then ''true'' else ''false'') TBoolean @ comma_of isLast) st"
| "processValue (JNumber n) ind isLast keyPrefix st =
     push_line ind (keyPrefix @ getTokenHtml n TNumber @ comma_of isLast) st"
| "processValue (JString s) ind isLast keyPrefix st =
     push_line ind
       (keyPrefix @ getTokenHtml ([dquote] @ s @ [dquote]) TString @ comma_of isLast) st"
| "processValue (JArray items) ind isLast keyPrefix st =
     (if length items = 0
      then push_line ind (keyPrefix @ getTokenHtml ''[]'' TBracket @ comma_of isLast) st
      else
        (let (blockId, st1) = getBlockId st;
             startLine = length (result st1);
             st2 = push_block_start ind (keyPrefix @ getTokenHtml ''['' TBracket) blockId
                     (show_nat (length items) @ '' items'') '']'' (comma_of isLast) st1;
             st3 = processItems items (ind + 1) st2;
             st4 = push_line ind (getTokenHtml '']'' TBracket @ comma_of isLast) st3
         in set_blockEnd startLine st4))"
| "processValue (JObject plain entries) ind isLast keyPrefix st =
     (if length entries = 0
      then push_line ind (keyPrefix @ getTokenHtml ''{}'' TBracket @ comma_of isLast) st
      else
        (let (blockId, st1) = getBlockId st;
             startLine = length (result st1);
             st2 = push_block_start ind (keyPrefix @ getTokenHtml ''{'' TBracket) blockId
                     (show_nat (length entries) @ '' keys'') ''}'' (comma_of isLast) st1;
             st3 = processEntries entries (ind + 1) st2;
             st4 = push_line ind (getTokenHtml ''}'' TBracket @ comma_of isLast) st3
         in set_blockEnd startLine st4))"
| "processValue (JOther s) ind isLast keyPrefix st =
     push_line ind (keyPrefix @ getTokenHtml s TString @ comma_of isLast) st"
| "processItems [] ind st = st"
| "processItems (item # rest) ind st =
     processItems rest ind (processValue item ind (rest = []) '''' st)"
| "processEntries [] ind st = st"
| "processEntries ((key, v) # rest) ind st =
     processEntries rest ind (processValue v ind (rest = []) (key_prefix key) st)"

definition parseJsonToLines :: "json \<Rightarrow> JsonLine list" where
  "parseJsonToLines d =
     result (processValue d 0 True ''''
               \<lparr>result = [], next_lineNumber = 1, blockIdCounter = 0\<rparr>)"

definition isPlainObject :: "json \<Rightarrow> bool" where
  "isPlainObject v = (case v of JObject plain entries \<Rightarrow> plain | _ \<Rightarrow> False)"

definition object_keys :: "json \<Rightarrow> string list" where
  "object_keys v = (case v of JObject plain entries \<Rightarrow> map fst entries | _ \<Rightarrow> [])"

subsection \<open>The component\<close>

text \<open>
  The prop \<open>data\<close>: a string, an object, \<open>null\<close> or \<open>undefined\<close>. The platform
  functions the two viewers call are parameters: \<open>JSON_parse\<close> gives \<open>None\<close> where
  \<open>JSON.parse\<close> throws; \<open>String_trim\<close> is \<open>String.prototype.trim\<close>;
  \<open>JSON_stringify_pretty\<close> is \<open>JSON.stringify(value, null, 2)\<close> and \<open>JSON_stringify\<close>
  is \<open>JSON.stringify(value)\<close>, which return a text or \<open>undefined\<close>, or throw;
  \<open>String_replace p r s\<close> is \<open>s.replace(p, r)\<close> for the regular expression with source
  \<open>p\<close> and the flag \<open>g\<close>.
\<close>

datatype stringified = Stringified string | StringifyUndefined | StringifyThrows

datatype viewer_data = DataNull | DataUndefined | DataString string | DataObject json

record js_platform =
  JSON_parse :: "string \<Rightarrow> json option"
  String_trim :: "string \<Rightarrow> string"
  JSON_stringify_pretty :: "json \<Rightarrow> stringified"
  JSON_stringify :: "json \<Rightarrow> stringified"
  String_replace :: "string \<Rightarrow> string \<Rightarrow> string \<Rightarrow> string"

datatype normalized_data = KindEmpty | KindText string | KindJson json

definition normalized :: "js_platform \<Rightarrow> viewer_data \<Rightarrow> normalized_data" where
  "normalized js d =
     (case d of
        DataNull \<Rightarrow> KindEmpty
      | DataUndefined \<Rightarrow> KindEmpty
      | DataString s \<Rightarrow>
          (let trimmed = String_trim js s
           in if trimmed = [] then KindEmpty
              else (case JSON_parse js trimmed of
                      Some parsed \<Rightarrow> KindJson parsed
                    | None \<Rightarrow> KindText s))
      | DataObject v \<Rightarrow> KindJson v)"

definition parseErrorMessage :: "js_platform \<Rightarrow> viewer_data \<Rightarrow> string option" where
  "parseErrorMessage js d =
     (case d of
        DataString s \<Rightarrow>
          (let trimmed = String_trim js s
           in if trimmed = [] then None
              else (case JSON_parse js trimmed of
                      Some parsed \<Rightarrow> None
                    | None \<Rightarrow> Some ''invalid JSON''))
      | _ \<Rightarrow> None)"

definition viewer_lines :: "normalized_data \<Rightarrow> JsonLine list" where
  "viewer_lines n = (case n of KindJson v \<Rightarrow> parseJsonToLines v | _ \<Rightarrow> [])"

text \<open>
  The state \<open>collapsedBlocks\<close> is a \<open>Set\<close> of block ids, held as the list of its
  members in insertion order.
\<close>

definition effectiveCollapsedBlocks :: "normalized_data \<Rightarrow> string list \<Rightarrow> string list" where
  "effectiveCollapsedBlocks n collapsedBlocks =
     (case n of KindJson v \<Rightarrow> collapsedBlocks | _ \<Rightarrow> [])"

text \<open>\<open>for (let idx = i; idx < e; idx++) hiddenLineIds.add(idx)\<close>\<close>

function add_hidden :: "nat \<Rightarrow> nat \<Rightarrow> nat set \<Rightarrow> nat set" where
  "add_hidden idx e hidden = (if idx < e then add_hidden (idx + 1) e (insert idx hidden) else hidden)"
  by pat_completeness auto
termination
  by (relation "measure (\<lambda>(idx, e, hidden). e - idx)") auto

declare add_hidden.simps [simp del]

text \<open>The body of \<open>effectiveCollapsedBlocks.forEach\<close>, and the whole loop.\<close>

definition hide_block :: "JsonLine list \<Rightarrow> string \<Rightarrow> nat set \<Rightarrow> nat set" where
  "hide_block lines bid hidden =
     (case List.find (\<lambda>l. canFold l \<and> blockId l = bid) lines of
        None \<Rightarrow> hidden
      | Some foldStart \<Rightarrow>
          (case blockEnd foldStart of
             None \<Rightarrow> hidden
           | Some e \<Rightarrow> add_hidden (line_id foldStart + 1) e hidden))"

definition hiddenLineIds :: "JsonLine list \<Rightarrow> string list \<Rightarrow> nat set" where
  "hiddenLineIds lines collapsed = fold (hide_block lines) collapsed {}"

definition visibleLines :: "normalized_data \<Rightarrow> JsonLine list \<Rightarrow> string list \<Rightarrow> JsonLine list" where
  "visibleLines n lines collapsed =
     (case n of
        KindJson v \<Rightarrow> filter (\<lambda>l. line_id l \<notin> hiddenLineIds lines collapsed) lines
      | _ \<Rightarrow> [])"

text \<open>\<open>toggleFold\<close>: the new value of \<open>collapsedBlocks\<close>.\<close>

definition toggleFold :: "string \<Rightarrow> string list \<Rightarrow> string list" where
  "toggleFold bid prev =
     (if bid = [] then prev
      else if bid \<in> set prev then removeAll bid prev
      else prev @ [bid])"

text \<open>
  What is rendered. A line of the tree has its key, whether it has a fold button and
  whether that button shows the collapsed icon, its number, its indentation in pixels
  and the HTML set as its content. \<open>ellipsis_text\<close> is a space, U+2026 in UTF-8 and a
  space.
\<close>

definition ellipsis_text :: string where
  "ellipsis_text = [CHR '' '', char_of (0xE2::nat), char_of (0x80::nat), char_of (0xA6::nat), CHR '' '']"

record tree_line =
  line_key :: nat
  has_fold :: bool
  isCollapsed :: bool
  shown_number :: nat
  indent_px :: nat
  displayHtml :: string

definition render_line :: "string list \<Rightarrow> JsonLine \<Rightarrow> tree_line" where
  "render_line collapsed line =
     (let collapsed_here = (canFold line \<and> blockId line \<in> set collapsed)
      in \<lparr>line_key = line_id line,
          has_fold = canFold line,
          isCollapsed = collapsed_here,
          shown_number = lineNumber line,
          indent_px = indent line * 16,
          displayHtml =
            (if collapsed_here
             then html line @ getTokenHtml ellipsis_text TEllipsis
                  @ getTokenHtml (case closingBracket line of None \<Rightarrow> '''' | Some b \<Rightarrow> b) TBracket
                  @ (case trailingComma line of None \<Rightarrow> '''' | Some c \<Rightarrow> c)
             else html line)\<rparr>)"

text \<open>
  What a viewer can render: the empty placeholder with \<open>emptyText\<close>, the raw text in a
  \<open>pre\<close> block with the warning banner (its message) when there is one, the tree, or
  (the older viewer only) the lines of highlighted HTML in a \<open>pre\<close> block.
\<close>

datatype viewer_view =
  ViewEmpty "string option"
| ViewRaw "string option" string
| ViewTree "tree_line list"
| ViewHighlighted "string list"

definition JsonViewer ::
  "js_platform \<Rightarrow> viewer_data \<Rightarrow> string option \<Rightarrow> string list \<Rightarrow> viewer_view" where
  "JsonViewer js d emptyText collapsedBlocks =
     (let n = normalized js d;
          lines = viewer_lines n;
          collapsed = effectiveCollapsedBlocks n collapsedBlocks;
          visible = visibleLines n lines collapsed
      in case n of
           KindEmpty \<Rightarrow> ViewEmpty emptyText
         | KindText v \<Rightarrow> ViewRaw (parseErrorMessage js d) v
         | KindJson v \<Rightarrow>
             (if isPlainObject v \<and> length (object_keys v) = 0 then ViewEmpty emptyText
              else ViewTree (map (render_line collapsed) visible)))"

subsection \<open>The older viewer (src/unnamed/part_001)\<close>

text \<open>
  The backslash, and the five replacements of \<open>highlightJson\<close>, each the source of a
  regular expression and its replacement text: for keys, string values, numbers,
  booleans and \<open>null\<close>.
\<close>

definition bslash :: char where
  "bslash = CHR 0x5C"

definition highlight_rules :: "(string \<times> string) list" where
  "highlight_rules =
     [([dquote] @ ''([^'' @ [dquote] @ '']+)'' @ [dquote] @ '':'',
       ''<span class='' @ [dquote] @ ''json-key'' @ [dquote] @ ''>'' @ [dquote] @ ''$1''
         @ [dquote] @ ''</span>:''),
      ('': '' @ [dquote] @ ''([^'' @ [dquote] @ '']*)'' @ [dquote],
       '': <span class='' @ [dquote] @ ''json-string'' @ [dquote] @ ''>'' @ [dquote] @ ''$1''
         @ [dquote] @ ''</span>''),
      ('': (-?'' @ [bslash] @ ''d+'' @ [bslash] @ ''.?'' @ [bslash] @ ''d*)'',
       '': <span class='' @ [dquote] @ ''json-number'' @ [dquote] @ ''>$1</span>''),
      ('': (true|false)'',
       '': <span class='' @ [dquote] @ ''json-boolean'' @ [dquote] @ ''>$1</span>''),
      ('': (null)'',
       '': <span class='' @ [dquote] @ ''json-null'' @ [dquote] @ ''>$1</span>'')]"

text \<open>Splitting a text at its line feeds.\<close>

fun split_lines :: "string \<Rightarrow> string list" where
  "split_lines [] = [[]]"
| "split_lines (c # cs) =
     (if c = CHR 0x0A then [] # split_lines cs
      else (case split_lines cs of
              [] \<Rightarrow> [[c]]
            | w # ws \<Rightarrow> (c # w) # ws))"

text \<open>\<open>highlightJson\<close>: the HTML set as the content of each line.\<close>

definition highlightJson :: "js_platform \<Rightarrow> string \<Rightarrow> string list" where
  "highlightJson js jsonStr =
     map (\<lambda>line. fold (\<lambda>(p, r) highlighted. String_replace js p r highlighted)
                    highlight_rules line)
       (split_lines jsonStr)"

text \<open>
  The \<open>useMemo\<close> that computes \<open>content\<close>: \<open>Inr None\<close> for \<open>null\<close> or \<open>undefined\<close>,
  \<open>Inl\<close> where the error thrown by \<open>JSON.stringify\<close> in the outer \<open>catch\<close> escapes.
\<close>

definition of_stringified :: "stringified \<Rightarrow> string option option" where
  "of_stringified r =
     (case r of
        Stringified t \<Rightarrow> Some (Some t)
      | StringifyUndefined \<Rightarrow> Some None
      | StringifyThrows \<Rightarrow> None)"

definition legacy_content :: "js_platform \<Rightarrow> viewer_data \<Rightarrow> js_error + string option" where
  "legacy_content js d =
     (case d of
        DataNull \<Rightarrow> Inr None
      | DataUndefined \<Rightarrow> Inr None
      | DataString s \<Rightarrow>
          (if s = [] then Inr None
           else (case JSON_parse js s of
                   None \<Rightarrow> Inr (Some s)
                 | Some parsed \<Rightarrow>
                     (case of_stringified (JSON_stringify_pretty js parsed) of
                        Some content \<Rightarrow> Inr content
                      | None \<Rightarrow> Inr (Some s))))
      | DataObject v \<Rightarrow>
          (case of_stringified (JSON_stringify_pretty js v) of
             Some content \<Rightarrow> Inr content
           | None \<Rightarrow>
               (case of_stringified (JSON_stringify js v) of
                  Some content \<Rightarrow> Inr content
                | None \<Rightarrow> Inl TypeError)))"

text \<open>\<open>t.startsWith('{') || t.startsWith('[')\<close>\<close>

definition starts_like_json :: "string \<Rightarrow> bool" where
  "starts_like_json t = (case t of [] \<Rightarrow> False | c # cs \<Rightarrow> c = CHR ''{'' \<or> c = CHR ''['')"

definition JsonViewer_legacy ::
  "js_platform \<Rightarrow> viewer_data \<Rightarrow> string option \<Rightarrow> js_error + viewer_view" where
  "JsonViewer_legacy js d emptyText =
     (case legacy_content js d of
        Inl e \<Rightarrow> Inl e
      | Inr None \<Rightarrow> Inr (ViewEmpty emptyText)
      | Inr (Some content) \<Rightarrow>
          (if content = [] then Inr (ViewEmpty emptyText)
           else (let isJson = starts_like_json (String_trim js content)
                 in Inr (if isJson then ViewHighlighted (highlightJson js content)
                         else ViewRaw None content))))"

subsection \<open>Escaping, as specified\<close>

text \<open>
  The entity that stands for a character; the span that a token is to be: the class of
  its type around its text, each character of the text replaced by its entity; and
  HTML made of such spans only.
\<close>

definition escape_char :: "char \<Rightarrow> string" where
  "escape_char c =
     (if c = CHR ''&'' then ''&amp;''
      else if c = CHR ''<'' then ''&lt;''
      else if c = CHR ''>'' then ''&gt;''
      else if c = dquote then ''&quot;''
      else [c])"

definition escaped_span :: "string \<Rightarrow> token_type \<Rightarrow> string" where
  "escaped_span t ty =
     ''<span class='' @ [dquote] @ classMap ty @ [dquote] @ ''>''
       @ concat (map escape_char t) @ ''</span>''"

definition tokens_html :: "(string \<times> token_type) list \<Rightarrow> string" where
  "tokens_html toks = concat (map (\<lambda>(v, ty). escaped_span v ty) toks)"

text \<open>
  The string values and the keys of a value, and what it is for a text to be embedded in
  one of a set of HTML strings.
\<close>

fun strings_of :: "json \<Rightarrow> string list"
  and strings_of_items :: "json list \<Rightarrow> string list"
  and strings_of_entries :: "(string \<times> json) list \<Rightarrow> string list"
where
  "strings_of JNull = []"
| "strings_of (JBool b) = []"
| "strings_of (JNumber n) = []"
| "strings_of (JString s) = [s]"
| "strings_of (JArray items) = strings_of_items items"
| "strings_of (JObject plain entries) = strings_of_entries entries"
| "strings_of (JOther s) = []"
| "strings_of_items [] = []"
| "strings_of_items (item # rest) = strings_of item @ strings_of_items rest"
| "strings_of_entries [] = []"
| "strings_of_entries ((key, v) # rest) = strings_of v @ strings_of_entries rest"

fun keys_of :: "json \<Rightarrow> string list"
  and keys_of_items :: "json list \<Rightarrow> string list"
  and keys_of_entries :: "(string \<times> json) list \<Rightarrow> string list"
where
  "keys_of JNull = []"
| "keys_of (JBool b) = []"
| "keys_of (JNumber n) = []"
| "keys_of (JString s) = []"
| "keys_of (JArray items) = keys_of_items items"
| "keys_of (JObject plain entries) = keys_of_entries entries"
| "keys_of (JOther s) = []"
| "keys_of_items [] = []"
| "keys_of_items (item # rest) = keys_of item @ keys_of_items rest"
| "keys_of_entries [] = []"
| "keys_of_entries ((key, v) # rest) = key # keys_of v @ keys_of_entries rest"

definition embeds :: "string set \<Rightarrow> string \<Rightarrow> bool" where
  "embeds H t = (\<exists>h \<in> H. \<exists>pre post. h = pre @ t @ post)"

definition htmls :: "parse_state \<Rightarrow> string set" where
  "htmls st = html ` set (result st)"

text \<open>
  What the parser has done from \<open>st\<close> to \<open>st'\<close> for a value with the keys \<open>ks\<close> and the
  string values \<open>ss\<close>: no HTML is lost, and each key and each string value, in double
  quotes, is embedded as an escaped span.
\<close>

definition embedded_all :: "parse_state \<Rightarrow> parse_state \<Rightarrow> string list \<Rightarrow> string list \<Rightarrow> bool" where
  "embedded_all st st' ks ss =
     (htmls st \<subseteq> htmls st'
      \<and> (\<forall>k \<in> set ks. embeds (htmls st') (escaped_span ([dquote] @ k @ [dquote]) TKey))
      \<and> (\<forall>s \<in> set ss. embeds (htmls st') (escaped_span ([dquote] @ s @ [dquote]) TString)))"

text \<open>
  A line is made of tokens when its HTML is a sequence of tokens followed by at most a
  comma, and, for the first line of a block, when it has no comma of its own and
  carries a closing bracket and a trailing comma that is empty or a comma.
\<close>

definition made_of_tokens :: "string \<Rightarrow> bool" where
  "made_of_tokens h = (\<exists>toks. h = tokens_html toks \<or> h = tokens_html toks @ '','')"

definition line_of_tokens :: "JsonLine \<Rightarrow> bool" where
  "line_of_tokens l =
     (made_of_tokens (html l) \<and>
      (if canFold l
       then (\<exists>toks. html l = tokens_html toks) \<and> closingBracket l \<noteq> None
            \<and> (trailingComma l = Some '''' \<or> trailingComma l = Some '','')
       else True))"

text \<open>Every line the parser has produced so far is made of tokens.\<close>

definition all_tokens :: "parse_state \<Rightarrow> bool" where
  "all_tokens st = (\<forall>l \<in> set (result st). line_of_tokens l)"

subsection \<open>Examples\<close>

text \<open>
  An object whose key and value contain markup characters, and a fragment of the
  platform: \<open>JSON.parse\<close> on three JSON texts and on text that is not JSON,
  \<open>JSON.stringify\<close> on \<open>null\<close> and on the empty object, \<open>trim\<close> on ASCII white
  space, and \<open>replace\<close> on text that none of the five expressions matches.
\<close>

definition markup_sample :: json where
  "markup_sample = JObject True [(''<k>'', JString ''a&b'')]"

definition ascii_space :: "char \<Rightarrow> bool" where
  "ascii_space c = (c \<in> set [CHR '' '', CHR 0x09, CHR 0x0A, CHR 0x0B, CHR 0x0C, CHR 0x0D])"

definition ascii_trim :: "string \<Rightarrow> string" where
  "ascii_trim s = rev (dropWhile ascii_space (rev (dropWhile ascii_space s)))"

definition example_platform :: js_platform where
  "example_platform =
     \<lparr>JSON_parse = (\<lambda>s. if s = ''{}'' then Some (JObject True [])
                        else if s = ''[1]'' then Some (JArray [JNumber ''1''])
                        else if s = ''null'' then Some JNull
                        else None),
      String_trim = ascii_trim,
      JSON_stringify_pretty = (\<lambda>v. if v = JNull then Stringified ''null''
                                   else if v = JObject True [] then Stringified ''{}''
                                   else StringifyThrows),
      JSON_stringify = (\<lambda>v. if v = JNull then Stringified ''null''
                            else if v = JObject True [] then Stringified ''{}''
                            else StringifyThrows),
      String_replace = (\<lambda>p r s. s)\<rparr>"

subsection \<open>Blocks, as specified\<close>

text \<open>
  \<open>closes l c\<close>: the line \<open>c\<close> is the closing-bracket line of the block that starts at
  \<open>l\<close>; it has the indentation of \<open>l\<close>, is not foldable, and shows the closing bracket
  of \<open>l\<close> followed by its trailing comma.
\<close>

definition closes :: "JsonLine \<Rightarrow> JsonLine \<Rightarrow> bool" where
  "closes l c =
     (\<not> canFold c \<and> indent c = indent l \<and>
      html c = getTokenHtml (case closingBracket l of None \<Rightarrow> '''' | Some b \<Rightarrow> b) TBracket
               @ (case trailingComma l of None \<Rightarrow> '''' | Some t \<Rightarrow> t))"

text \<open>
  In a run of lines whose first line has the id \<open>off\<close>, the block of \<open>l\<close> is closed
  when \<open>l\<close> is followed by the lines of the block and then by its closing line, and
  \<open>blockEnd\<close> is the id of that closing line.
\<close>

definition block_closed :: "nat \<Rightarrow> JsonLine list \<Rightarrow> JsonLine \<Rightarrow> bool" where
  "block_closed off new l =
     (\<exists>pre mid c post.
        new = pre @ [l] @ mid @ [c] @ post
        \<and> blockEnd l = Some (off + length pre + length mid + 1)
        \<and> closes l c)"

text \<open>
  A run of lines produced from the id \<open>off\<close> and the block counter \<open>c\<close> on, the counter
  ending at \<open>c'\<close>: ids count up from \<open>off\<close>, every foldable line has its block closed
  inside the run, and the foldable lines carry distinct block ids, numbered from \<open>c\<close>
  up to \<open>c'\<close>.
\<close>

definition segment_ok :: "nat \<Rightarrow> nat \<Rightarrow> nat \<Rightarrow> JsonLine list \<Rightarrow> bool" where
  "segment_ok off c c' new =
     (map line_id new = [off..<off + length new]
      \<and> (\<forall>l \<in> set new. canFold l \<longrightarrow> block_closed off new l)
      \<and> distinct (map blockId (filter canFold new))
      \<and> (\<forall>l \<in> set new. canFold l \<longrightarrow> (\<exists>k. c \<le> k \<and> k < c' \<and> blockId l = block_name k)))"

text \<open>
  The ids of the lines strictly between the first line and the closing line of the
  block with a given id.
\<close>

definition block_range :: "JsonLine list \<Rightarrow> string \<Rightarrow> nat set" where
  "block_range lines bid =
     {i. \<exists>l \<in> set lines. canFold l \<and> blockId l = bid
           \<and> (\<exists>e. blockEnd l = Some e \<and> line_id l < i \<and> i < e)}"

text \<open>
  A step of the parser from \<open>st\<close> to \<open>st'\<close> only appends lines, and the appended run is
  well formed.
\<close>

definition appends :: "parse_state \<Rightarrow> parse_state \<Rightarrow> bool" where
  "appends st st' =
     (\<exists>new. result st' = result st @ new
        \<and> blockIdCounter st \<le> blockIdCounter st'
        \<and> segment_ok (length (result st)) (blockIdCounter st) (blockIdCounter st') new)"

text \<open>An array inside an array, for examples.\<close>

definition nested_sample :: json where
  "nested_sample = JArray [JNumber ''1'', JArray [JNull], JBool True]"


section \<open>Printing numbers: digits\<close>

lemma show_nat_nonempty: "show_nat n \<noteq> []"
  by (subst show_nat.simps) simp

lemma digit_inj: "a < 10 \<Longrightarrow> b < 10 \<Longrightarrow> char_of (48 + a) = char_of (48 + (b::nat)) \<Longrightarrow> a = b"
proof -
  assume a: "a < 10" and b: "b < 10" and eq: "char_of (48 + a) = char_of (48 + b)"
  from eq have "(of_char (char_of (48 + a)) :: nat) = of_char (char_of (48 + b))" by simp
  then have "(48 + a) mod 256 = (48 + b) mod 256" by simp
  with a b show "a = b" by simp
qed

lemma show_nat_inj: "show_nat m = show_nat n \<Longrightarrow> m = n"
proof (induction m arbitrary: n rule: show_nat.induct)
  case (1 m)
  show ?case
  proof (cases "m < 10")
    case m: True
    show ?thesis
    proof (cases "n < 10")
      case True
      with m "1.prems" have "char_of (48 + m) = char_of (48 + n)"
        by (simp add: show_nat.simps [of m] show_nat.simps [of n])
      with m True show ?thesis by (rule digit_inj)
    next
      case False
      with m "1.prems" have "[char_of (48 + m)] = show_nat (n div 10) @ [char_of (48 + n mod 10)]"
        by (simp add: show_nat.simps [of m] show_nat.simps [of n])
      then have "show_nat (n div 10) = []" by (simp add: Cons_eq_append_conv)
      with show_nat_nonempty show ?thesis by blast
    qed
  next
    case m: False
    show ?thesis
    proof (cases "n < 10")
      case True
      with m "1.prems" have "show_nat (m div 10) @ [char_of (48 + m mod 10)] = [char_of (48 + n)]"
        by (simp add: show_nat.simps [of m] show_nat.simps [of n])
      then have "show_nat (m div 10) = []" by (simp add: append_eq_Cons_conv)
      with show_nat_nonempty show ?thesis by blast
    next
      case False
      with m "1.prems" have
        "show_nat (m div 10) @ [char_of (48 + m mod 10)]
           = show_nat (n div 10) @ [char_of (48 + n mod 10)]"
        by (simp add: show_nat.simps [of m] show_nat.simps [of n])
      then have a: "show_nat (m div 10) = show_nat (n div 10)"
        and b: "char_of (48 + m mod 10) = char_of (48 + n mod 10)" by simp_all
      from "1.IH" [OF m a] have d: "m div 10 = n div 10" .
      have "m mod 10 = n mod 10" using b by (intro digit_inj) simp_all
      with d show ?thesis by (metis div_mult_mod_eq)
    qed
  qed
qed

lemma digit_chars:
  "char_of (48::nat) = CHR ''0''" "char_of (49::nat) = CHR ''1''" "char_of (50::nat) = CHR ''2''"
  "char_of (51::nat) = CHR ''3''"
  by (simp_all add: char_of_eq_iff)


section \<open>Theme store: the resolved theme\<close>

lemma applyTheme_fields:
  "theme (applyTheme r w) = theme w"
  "resolvedTheme (applyTheme r w) = resolvedTheme w"
  "has_matchMedia (applyTheme r w) = has_matchMedia w"
  "prefers_dark (applyTheme r w) = prefers_dark w"
  "listeners (applyTheme r w) = listeners w"
  "next_listener (applyTheme r w) = next_listener w"
  by (simp_all add: applyTheme_def Let_def)

lemma getSystemTheme_applyTheme: "getSystemTheme (applyTheme r w) = getSystemTheme w"
  by (simp add: getSystemTheme_def applyTheme_fields)

lemma theme_cycleTheme:
  "theme (cycleTheme w) = (case theme w of Light \<Rightarrow> Dark | Dark \<Rightarrow> Auto | Auto \<Rightarrow> Light)"
  by (cases "theme w") (simp_all add: cycleTheme_def theme_order_def Let_def applyTheme_fields)

text \<open>
  Claim C6. \<open>cycleTheme\<close> moves the theme preference one step along
  light, dark, auto, light; three applications give the starting theme back.
\<close>

theorem cycleTheme_order:
  "theme (cycleTheme w) = (case theme w of Light \<Rightarrow> Dark | Dark \<Rightarrow> Auto | Auto \<Rightarrow> Light)
   \<and> theme (cycleTheme (cycleTheme (cycleTheme w))) = theme w"
  by (cases "theme w") (simp_all add: theme_cycleTheme)

lemma setTheme_invariant: "theme_invariant (setTheme t w)"
  by (cases t) (simp_all add: theme_invariant_def setTheme_def resolve_def Let_def
      applyTheme_fields getSystemTheme_def)

lemma cycleTheme_invariant: "theme_invariant (cycleTheme w)"
  by (cases "theme w") (simp_all add: theme_invariant_def cycleTheme_def theme_order_def
      resolve_def Let_def applyTheme_fields getSystemTheme_def)

lemma initializeTheme_invariant: "theme_invariant (fst (initializeTheme w))"
  by (cases "theme w") (simp_all add: theme_invariant_def initializeTheme_def
      resolve_def Let_def applyTheme_fields getSystemTheme_def)

lemma invariant_explicit: "theme_invariant w \<Longrightarrow> explicit_resolved w"
  by (cases "theme w") (simp_all add: theme_invariant_def explicit_resolved_def)

lemma listener_fields:
  "theme (theme_listener w) = theme w"
  "has_matchMedia (theme_listener w) = has_matchMedia w"
  "prefers_dark (theme_listener w) = prefers_dark w"
  "listeners (theme_listener w) = listeners w"
  by (simp_all add: theme_listener_def Let_def applyTheme_fields)

lemma listener_invariant:
  "explicit_resolved w \<Longrightarrow> theme_invariant (theme_listener w)"
  by (cases "theme w") (simp_all add: theme_invariant_def explicit_resolved_def
      theme_listener_def Let_def applyTheme_fields getSystemTheme_def)

lemma listeners_fold_invariant:
  "explicit_resolved w \<Longrightarrow> xs \<noteq> [] \<Longrightarrow> theme_invariant (fold (\<lambda>_. theme_listener) xs w)"
proof (induction xs arbitrary: w)
  case Nil
  then show ?case by simp
next
  case (Cons x xs)
  have inv: "theme_invariant (theme_listener w)"
    using Cons.prems(1) by (rule listener_invariant)
  show ?case
  proof (cases xs)
    case Nil
    with inv show ?thesis by simp
  next
    case (Cons y ys)
    then have "xs \<noteq> []" by simp
    with Cons.IH [OF invariant_explicit [OF inv]] show ?thesis by simp
  qed
qed

lemma listeners_fold_fields:
  "listeners (fold (\<lambda>_. theme_listener) xs w) = listeners w"
  "theme (fold (\<lambda>_. theme_listener) xs w) = theme w"
  by (induction xs arbitrary: w) (simp_all add: listener_fields)

lemma listeners_fold_explicit:
  "explicit_resolved w \<Longrightarrow> explicit_resolved (fold (\<lambda>_. theme_listener) xs w)"
  by (cases "xs = []") (simp_all add: listeners_fold_invariant invariant_explicit)


lemma explicit_prefers: "explicit_resolved (w\<lparr>prefers_dark := b\<rparr>) = explicit_resolved w"
  by (cases "theme w") (simp_all add: explicit_resolved_def)

lemma explicit_listeners: "explicit_resolved (w\<lparr>listeners := b\<rparr>) = explicit_resolved w"
  by (cases "theme w") (simp_all add: explicit_resolved_def)

lemma step_listener_ready:
  "listener_ready w \<Longrightarrow> listener_ready (theme_step ev w)"
proof (cases ev)
  case (SetTheme t)
  then show ?thesis
    by (simp add: theme_step_def listener_ready_def setTheme_invariant invariant_explicit)
next
  case CycleTheme
  then show ?thesis
    by (simp add: theme_step_def listener_ready_def cycleTheme_invariant invariant_explicit)
next
  case InitializeTheme
  then show ?thesis
    by (simp add: theme_step_def listener_ready_def initializeTheme_invariant invariant_explicit)
next
  case (Cleanup c)
  assume "listener_ready w"
  with Cleanup show ?thesis
    by (cases c) (auto simp: theme_step_def listener_ready_def theme_cleanup_def explicit_listeners)
next
  case PreferenceChange
  assume "listener_ready w"
  with PreferenceChange show ?thesis
    by (auto simp: theme_step_def listener_ready_def Let_def listeners_fold_fields
        explicit_prefers intro: listeners_fold_explicit)
qed

lemma run_listener_ready:
  "listener_ready w \<Longrightarrow> listener_ready (theme_run evs w)"
  by (induction evs arbitrary: w) (simp_all add: step_listener_ready)

text \<open>
  Claim C5. Start from any store on which no listener is registered yet, and let any
  events happen. After each event that runs code of the store (\<open>setTheme\<close>,
  \<open>cycleTheme\<close>, \<open>initializeTheme\<close>, or the listener installed by
  \<open>initializeTheme\<close> on a change of the system preference), \<open>resolvedTheme\<close> is
  the theme itself when the theme is light or dark, and the system preference when the
  theme is auto.
\<close>

theorem theme_invariant_after_operation:
  assumes "listeners w0 = []" and "runs_store_code ev (theme_run evs w0)"
  shows "theme_invariant (theme_step ev (theme_run evs w0))"
proof -
  let ?w = "theme_run evs w0"
  have ready: "listener_ready ?w"
    using assms(1) by (intro run_listener_ready) (simp add: listener_ready_def)
  show ?thesis
  proof (cases ev)
    case (SetTheme t)
    then show ?thesis by (simp add: theme_step_def setTheme_invariant)
  next
    case CycleTheme
    then show ?thesis by (simp add: theme_step_def cycleTheme_invariant)
  next
    case InitializeTheme
    then show ?thesis by (simp add: theme_step_def initializeTheme_invariant)
  next
    case (Cleanup c)
    with assms(2) show ?thesis by (simp add: runs_store_code_def)
  next
    case PreferenceChange
    with assms(2) have ne: "listeners ?w \<noteq> []" by (simp add: runs_store_code_def)
    with ready have "explicit_resolved ?w" by (simp add: listener_ready_def)
    then have "explicit_resolved (?w\<lparr>prefers_dark := \<not> prefers_dark ?w\<rparr>)"
      by (simp add: explicit_prefers)
    from listeners_fold_invariant [OF this] ne PreferenceChange show ?thesis
      by (simp add: theme_step_def Let_def)
  qed
qed


theorem theme_invariant_after_operation_witness:
  "listeners (initial_theme_world True False) = []
   \<and> runs_store_code PreferenceChange (theme_run [InitializeTheme] (initial_theme_world True False))
   \<and> theme_invariant (theme_step PreferenceChange (theme_run [InitializeTheme] (initial_theme_world True False)))
   \<and> resolvedTheme (theme_step PreferenceChange (theme_run [InitializeTheme] (initial_theme_world True False))) = ResolvedDark"
proof -
  have a: "listeners (initial_theme_world True False) = []"
    by (simp add: initial_theme_world_def)
  have b: "runs_store_code PreferenceChange (theme_run [InitializeTheme] (initial_theme_world True False))"
    by (simp add: initial_theme_world_def runs_store_code_def theme_step_def initializeTheme_def
        Let_def applyTheme_def resolve_def getSystemTheme_def)
  have c: "resolvedTheme (theme_step PreferenceChange (theme_run [InitializeTheme] (initial_theme_world True False))) = ResolvedDark"
    by (simp add: initial_theme_world_def theme_step_def initializeTheme_def theme_listener_def
        Let_def applyTheme_def resolve_def getSystemTheme_def)
  from a b c theme_invariant_after_operation [OF a b] show ?thesis by simp
qed


section \<open>Drawer scroll lock: counter and class\<close>

lemma class_lists_lockScroll:
  "class_lists (lockScroll w) =
     (if activeDrawerCount w = 0 then map (insert DRAWER_LOCK_CLASS) (class_lists w)
      else class_lists w)"
  by (cases "document w")
     (auto simp: lockScroll_def class_lists_def classList_add_def Let_def List.map_filter_def
           split: option.splits)

lemma class_lists_unlockScroll:
  "class_lists (unlockScroll w) =
     (if activeDrawerCount w \<le> 1 then map (\<lambda>cl. cl - {DRAWER_LOCK_CLASS}) (class_lists w)
      else class_lists w)"
  by (cases "document w")
     (auto simp: unlockScroll_def class_lists_def classList_remove_def Let_def List.map_filter_def
           split: option.splits)

lemma count_lockScroll:
  "activeDrawerCount (lockScroll w) =
     (if document w = None then activeDrawerCount w else activeDrawerCount w + 1)"
  by (cases "document w") (simp_all add: lockScroll_def Let_def)

lemma count_unlockScroll:
  "activeDrawerCount (unlockScroll w) =
     (if document w = None then activeDrawerCount w else max 0 (activeDrawerCount w - 1))"
  by (cases "document w") (simp_all add: unlockScroll_def Let_def)

lemma document_None_step:
  "(document (scroll_step c w) = None) = (document w = None)"
  by (cases c; cases "document w") (simp_all add: lockScroll_def unlockScroll_def Let_def)

lemma class_lists_no_document: "document w = None \<Longrightarrow> class_lists w = []"
  by (simp add: class_lists_def)


lemma fresh_scroll_inv: "fresh_drawer_world w \<Longrightarrow> scroll_inv w"
  by (simp add: fresh_drawer_world_def scroll_inv_def)

lemma scroll_inv_step: "scroll_inv w \<Longrightarrow> scroll_inv (scroll_step c w)"
proof (cases c)
  case Lock
  assume "scroll_inv w"
  with Lock show ?thesis
    by (cases "document w = None")
       (auto simp: scroll_inv_def class_lists_lockScroll count_lockScroll list_all_iff
          scroll_locked_def class_lists_no_document)
next
  case Unlock
  assume "scroll_inv w"
  with Unlock show ?thesis
    by (cases "document w = None")
       (auto simp: scroll_inv_def class_lists_unlockScroll count_unlockScroll list_all_iff
          scroll_locked_def class_lists_no_document)
qed

lemma scroll_inv_run: "scroll_inv w \<Longrightarrow> scroll_inv (scroll_run cs w)"
  by (induction cs arbitrary: w) (simp_all add: scroll_inv_step)

lemma length_class_lists_step: "length (class_lists (scroll_step c w)) = length (class_lists w)"
  by (cases c) (simp_all add: class_lists_lockScroll class_lists_unlockScroll)

lemma scroll_step_added:
  assumes "scroll_inv w" and "i < length (class_lists w)"
  shows "(\<not> scroll_locked (class_lists w ! i) \<and> scroll_locked (class_lists (scroll_step c w) ! i))
         = (activeDrawerCount w = 0 \<and> activeDrawerCount (scroll_step c w) = 1)"
proof -
  have doc: "document w \<noteq> None"
    using assms(2) class_lists_no_document [of w] by (cases "document w") simp_all
  have old: "scroll_locked (class_lists w ! i) = (0 < activeDrawerCount w)"
    using assms by (simp add: scroll_inv_def list_all_length)
  have "scroll_inv (scroll_step c w)" using assms(1) by (rule scroll_inv_step)
  then have new: "scroll_locked (class_lists (scroll_step c w) ! i) = (0 < activeDrawerCount (scroll_step c w))"
    using assms(2) by (simp add: scroll_inv_def list_all_length length_class_lists_step)
  have nonneg: "0 \<le> activeDrawerCount w" using assms(1) by (simp add: scroll_inv_def)
  show ?thesis
    using doc nonneg unfolding old new
    by (cases c) (auto simp: count_lockScroll count_unlockScroll)
qed

lemma scroll_step_removed:
  assumes "scroll_inv w" and "i < length (class_lists w)"
  shows "(scroll_locked (class_lists w ! i) \<and> \<not> scroll_locked (class_lists (scroll_step c w) ! i))
         = (activeDrawerCount w = 1 \<and> activeDrawerCount (scroll_step c w) = 0)"
proof -
  have doc: "document w \<noteq> None"
    using assms(2) class_lists_no_document [of w] by (cases "document w") simp_all
  have old: "scroll_locked (class_lists w ! i) = (0 < activeDrawerCount w)"
    using assms by (simp add: scroll_inv_def list_all_length)
  have "scroll_inv (scroll_step c w)" using assms(1) by (rule scroll_inv_step)
  then have new: "scroll_locked (class_lists (scroll_step c w) ! i) = (0 < activeDrawerCount (scroll_step c w))"
    using assms(2) by (simp add: scroll_inv_def list_all_length length_class_lists_step)
  have nonneg: "0 \<le> activeDrawerCount w" using assms(1) by (simp add: scroll_inv_def)
  show ?thesis
    using doc nonneg unfolding old new
    by (cases c) (auto simp: count_lockScroll count_unlockScroll)
qed

lemma document_None_run: "(document (scroll_run cs w) = None) = (document w = None)"
  by (induction cs arbitrary: w) (simp_all add: document_None_step del: scroll_step.simps)

lemma holders_count:
  "document w \<noteq> None \<Longrightarrow> holders cs n = Some m \<Longrightarrow> activeDrawerCount w = int n
   \<Longrightarrow> activeDrawerCount (scroll_run cs w) = int m"
proof (induction cs n arbitrary: w rule: holders.induct)
  case (1 n)
  then show ?case by simp
next
  case (2 cs n)
  have "document (lockScroll w) \<noteq> None"
    using "2.prems"(1) document_None_step [of Lock w] by simp
  moreover have "activeDrawerCount (lockScroll w) = int (Suc n)"
    using "2.prems" by (simp add: count_lockScroll)
  ultimately show ?case using "2.IH" "2.prems"(2) by simp
next
  case (3 cs n)
  from "3.prems"(2) obtain k where n: "n = Suc k" and h: "holders cs k = Some m"
    by (cases n) simp_all
  have "document (unlockScroll w) \<noteq> None"
    using "3.prems"(1) document_None_step [of Unlock w] by simp
  moreover have "activeDrawerCount (unlockScroll w) = int k"
    using "3.prems" n by (simp add: count_unlockScroll)
  ultimately show ?case using "3.IH" [OF n] h by simp
qed

text \<open>
  Claim C10. From a fresh module (counter 0, class absent), after any sequence of
  \<open>lockScroll\<close> and \<open>unlockScroll\<close> calls: the counter is not negative; every
  element carries the class exactly when the counter is positive; a further call adds
  the class exactly when the counter goes from 0 to 1 and removes it exactly when the
  counter goes from 1 to 0; and when no unlock comes before its lock, the counter is
  the number of drawers that hold the lock.
\<close>

theorem scroll_lock_counter:
  assumes "fresh_drawer_world w0"
  shows "0 \<le> activeDrawerCount (scroll_run cs w0)
    \<and> (\<forall>cl \<in> set (class_lists (scroll_run cs w0)).
          scroll_locked cl = (0 < activeDrawerCount (scroll_run cs w0)))
    \<and> length (class_lists (scroll_step c (scroll_run cs w0))) = length (class_lists (scroll_run cs w0))
    \<and> (\<forall>i < length (class_lists (scroll_run cs w0)).
          ((\<not> scroll_locked (class_lists (scroll_run cs w0) ! i)
             \<and> scroll_locked (class_lists (scroll_step c (scroll_run cs w0)) ! i))
            = (activeDrawerCount (scroll_run cs w0) = 0
                \<and> activeDrawerCount (scroll_step c (scroll_run cs w0)) = 1))
          \<and> ((scroll_locked (class_lists (scroll_run cs w0) ! i)
             \<and> \<not> scroll_locked (class_lists (scroll_step c (scroll_run cs w0)) ! i))
            = (activeDrawerCount (scroll_run cs w0) = 1
                \<and> activeDrawerCount (scroll_step c (scroll_run cs w0)) = 0)))
    \<and> (\<forall>n. document w0 \<noteq> None \<longrightarrow> holders cs 0 = Some n
          \<longrightarrow> activeDrawerCount (scroll_run cs w0) = int n)"
proof -
  let ?w = "scroll_run cs w0"
  have inv: "scroll_inv ?w"
    using assms by (intro scroll_inv_run fresh_scroll_inv)
  have c0: "activeDrawerCount w0 = int 0"
    using assms by (simp add: fresh_drawer_world_def)
  have 1: "0 \<le> activeDrawerCount ?w" using inv by (simp add: scroll_inv_def)
  have 2: "\<forall>cl \<in> set (class_lists ?w). scroll_locked cl = (0 < activeDrawerCount ?w)"
    using inv by (simp add: scroll_inv_def list_all_iff)
  have 3: "length (class_lists (scroll_step c ?w)) = length (class_lists ?w)"
    by (rule length_class_lists_step)
  have 4: "\<forall>i < length (class_lists ?w).
          ((\<not> scroll_locked (class_lists ?w ! i) \<and> scroll_locked (class_lists (scroll_step c ?w) ! i))
            = (activeDrawerCount ?w = 0 \<and> activeDrawerCount (scroll_step c ?w) = 1))
          \<and> ((scroll_locked (class_lists ?w ! i) \<and> \<not> scroll_locked (class_lists (scroll_step c ?w) ! i))
            = (activeDrawerCount ?w = 1 \<and> activeDrawerCount (scroll_step c ?w) = 0))"
    using scroll_step_added [OF inv] scroll_step_removed [OF inv] by blast
  have 5: "\<forall>n. document w0 \<noteq> None \<longrightarrow> holders cs 0 = Some n \<longrightarrow> activeDrawerCount ?w = int n"
    using holders_count [OF _ _ c0] by blast
  from 1 2 3 4 5 show ?thesis by blast
qed

theorem scroll_lock_counter_witness:
  "fresh_drawer_world page_world
   \<and> activeDrawerCount (scroll_run [Lock, Lock, Unlock] page_world) = 1
   \<and> class_lists (scroll_run [Lock, Lock, Unlock] page_world)
       = [{DRAWER_LOCK_CLASS, ''app''}, {DRAWER_LOCK_CLASS}]
   \<and> activeDrawerCount (scroll_step Unlock (scroll_run [Lock, Lock, Unlock] page_world)) = 0
   \<and> class_lists (scroll_step Unlock (scroll_run [Lock, Lock, Unlock] page_world))
       = [{''app''}, {}]
   \<and> holders [Lock, Lock, Unlock] 0 = Some 1"
proof -
  have fresh: "fresh_drawer_world page_world"
    by (simp add: fresh_drawer_world_def page_world_def class_lists_def List.map_filter_def
        scroll_locked_def DRAWER_LOCK_CLASS_def)
  have run: "scroll_run [Lock, Lock, Unlock] page_world
      = \<lparr>activeDrawerCount = 1,
          document = Some \<lparr>body = Some {DRAWER_LOCK_CLASS, ''app''},
                             documentElement = Some {DRAWER_LOCK_CLASS}\<rparr>\<rparr>"
    by (simp add: page_world_def lockScroll_def unlockScroll_def classList_add_def Let_def)
  have step: "scroll_step Unlock (scroll_run [Lock, Lock, Unlock] page_world)
      = \<lparr>activeDrawerCount = 0,
          document = Some \<lparr>body = Some {''app''}, documentElement = Some {}\<rparr>\<rparr>"
    unfolding run
    by (auto simp: unlockScroll_def classList_remove_def Let_def DRAWER_LOCK_CLASS_def)
  from scroll_lock_counter [OF fresh, of "[Lock, Lock, Unlock]" Unlock] fresh show ?thesis
    unfolding step unfolding run
    by (simp add: class_lists_def List.map_filter_def)
qed


section \<open>Pagination: the page window and the page-change handler\<close>

lemma push_range_upto:
  "push_range i n pages = pages @ map (\<lambda>k. PageNumber (Fin k)) [i..n]"
proof (induction i n pages rule: push_range.induct)
  case (1 i n pages)
  show ?case
  proof (cases "i \<le> n")
    case True
    then have "[i..n] = i # [i + 1..n]" by (simp add: upto_rec1)
    with True "1.IH" show ?thesis by (subst push_range.simps) simp
  next
    case False
    then show ?thesis by (subst push_range.simps) simp
  qed
qed

lemma upto_three: "[c - 1..c + 1] = [c - 1, c, c + (1::int)]"
  by (simp add: upto_rec1)

lemma upto_five_below: "[n - 4..n] = [n - 4, n - 3, n - 2, n - 1, n::int]"
  by (simp add: upto_rec1)

lemma upto_one_five: "[1..5] = [1, 2, 3, 4, 5::int]"
  by (simp add: upto_rec1)

lemma totalPages_ceiling:
  "size' \<noteq> 0 \<Longrightarrow> totalPages tot size' = Fin \<lceil>real_of_int tot / real_of_int size'\<rceil>"
  by (simp add: totalPages_def ceiling_divide_eq_div)

lemma getPageNumbers_Fin:
  "getPageNumbers cur (Fin tp) = Some (window_as_specified cur tp)"
  by (simp add: getPageNumbers_def window_as_specified_def for_push_def js_ge_def
      push_range_upto upto_three upto_five_below upto_one_five)

text \<open>
  Claim C2. For \<open>total > 0\<close>, \<open>pageSize > 0\<close> and \<open>1 \<le> current \<le> totalPages\<close>, where
  \<open>totalPages\<close> is the ceiling of \<open>total / pageSize\<close>: \<open>getPageNumbers\<close> returns the
  window the specification describes (all pages up to 7 pages; otherwise the first
  five, the last five, or the three around the current page, with \<open>'...'\<close> for the
  gaps), and the window contains the current page, page 1 and the last page.
\<close>

theorem page_window:
  assumes "0 < tot" and "0 < size'" and "1 \<le> cur"
    and "cur \<le> \<lceil>real_of_int tot / real_of_int size'\<rceil>"
  shows "totalPages tot size' = Fin \<lceil>real_of_int tot / real_of_int size'\<rceil>
    \<and> getPageNumbers cur (totalPages tot size')
        = Some (window_as_specified cur \<lceil>real_of_int tot / real_of_int size'\<rceil>)
    \<and> PageNumber (Fin cur) \<in> set (window_as_specified cur \<lceil>real_of_int tot / real_of_int size'\<rceil>)
    \<and> PageNumber (Fin 1) \<in> set (window_as_specified cur \<lceil>real_of_int tot / real_of_int size'\<rceil>)
    \<and> PageNumber (Fin \<lceil>real_of_int tot / real_of_int size'\<rceil>)
        \<in> set (window_as_specified cur \<lceil>real_of_int tot / real_of_int size'\<rceil>)"
proof -
  let ?tp = "\<lceil>real_of_int tot / real_of_int size'\<rceil>"
  have tp: "totalPages tot size' = Fin ?tp"
    using assms(2) by (simp add: totalPages_ceiling)
  have win: "getPageNumbers cur (totalPages tot size') = Some (window_as_specified cur ?tp)"
    unfolding tp by (rule getPageNumbers_Fin)
  have one: "1 \<le> ?tp" using assms(3,4) by linarith
  have c: "PageNumber (Fin cur) \<in> set (window_as_specified cur ?tp)"
    using assms(3,4) by (auto simp: window_as_specified_def)
  have f: "PageNumber (Fin 1) \<in> set (window_as_specified cur ?tp)"
    using one by (auto simp: window_as_specified_def)
  have l: "PageNumber (Fin ?tp) \<in> set (window_as_specified cur ?tp)"
    using one by (auto simp: window_as_specified_def)
  from tp win c f l show ?thesis by blast
qed

theorem page_window_witness:
  "(0::int) < 200 \<and> (0::int) < 20 \<and> (1::int) \<le> 5 \<and> (5::int) \<le> \<lceil>real_of_int 200 / real_of_int 20\<rceil>
   \<and> totalPages 200 20 = Fin 10
   \<and> getPageNumbers 5 (totalPages 200 20)
       = Some [PageNumber (Fin 1), PageText ''...'', PageNumber (Fin 4), PageNumber (Fin 5),
               PageNumber (Fin 6), PageText ''...'', PageNumber (Fin 10)]"
proof -
  have a: "(0::int) < 200" and b: "(0::int) < 20" and c: "(1::int) \<le> 5" by simp_all
  have d: "(5::int) \<le> \<lceil>real_of_int 200 / real_of_int 20\<rceil>" by simp
  have e: "\<lceil>real_of_int 200 / real_of_int 20\<rceil> = 10" by simp
  from page_window [OF a b c d] show ?thesis
    unfolding e by (auto simp: window_as_specified_def)
qed



lemma getPageNumbers_returns: "\<exists>pages. getPageNumbers cur tp = Some pages"
  by (cases tp) (simp_all add: getPageNumbers_def for_push_def js_ge_def)

lemma Pagination_returns: "\<exists>r. Pagination props = Some r"
proof -
  obtain pages where
    "getPageNumbers (current props)
       (totalPages (total_prop props) (case pageSize props of None \<Rightarrow> 20 | Some s \<Rightarrow> s))
     = Some pages"
    using getPageNumbers_returns by blast
  then show ?thesis by (simp add: Pagination_def Let_def)
qed






section \<open>Activity heatmap: bucketing days into weeks\<close>

lemma pad_front_replicate:
  "pad_front i n week = week @ replicate (nat (n - i)) placeholder"
proof (induction i n week rule: pad_front.induct)
  case (1 i n week)
  show ?case
  proof (cases "i < n")
    case True
    then have "nat (n - i) = Suc (nat (n - (i + 1)))" by simp
    with True "1.IH" show ?thesis
      by (subst pad_front.simps) (simp add: replicate_app_Cons_same)
  next
    case False
    then show ?thesis by (subst pad_front.simps) simp
  qed
qed

lemma pad_back_replicate:
  "pad_back week = week @ replicate (7 - length week) placeholder"
proof (induction week rule: pad_back.induct)
  case (1 week)
  show ?case
  proof (cases "length week < 7")
    case True
    then have "7 - length week = Suc (7 - Suc (length week))" by simp
    with True "1.IH" show ?thesis
      by (subst pad_back.simps) (simp add: replicate_app_Cons_same)
  next
    case False
    then show ?thesis by (subst pad_back.simps) simp
  qed
qed

lemma heat_each_valid:
  assumes "parse_day api (date day) = Some d"
  shows "weeks (heat_each api day st) =
           (if (d + 4) mod 7 = 6 then weeks st @ [currentWeek st @ [day]] else weeks st)"
    and "currentWeek (heat_each api day st) =
           (if (d + 4) mod 7 = 6 then [] else currentWeek st @ [day])"
  using assms by (simp_all add: heat_each_def getUTCDay_def Let_def js_eq_def)

lemma heat_fold:
  assumes "consecutive_from api d ds"
    and "length (currentWeek st) = nat ((d + 4) mod 7)"
    and "\<forall>w \<in> set (weeks st). length w = 7"
  shows "concat (weeks (fold (heat_each api) ds st)) @ currentWeek (fold (heat_each api) ds st)
           = concat (weeks st) @ currentWeek st @ ds
       \<and> (\<forall>w \<in> set (weeks (fold (heat_each api) ds st)). length w = 7)
       \<and> length (currentWeek (fold (heat_each api) ds st)) = nat ((d + int (length ds) + 4) mod 7)"
  using assms
proof (induction ds arbitrary: d st)
  case Nil
  then show ?case by simp
next
  case (Cons x xs)
  let ?st = "heat_each api x st"
  from Cons.prems(1) have p: "parse_day api (date x) = Some d"
    and rest: "consecutive_from api (d + 1) xs" by simp_all
  have next_day: "(d + 1 + 4) mod 7 = ((d + 4) mod 7 + 1) mod 7"
    by (simp add: mod_simps)
  have len: "length (currentWeek ?st) = nat ((d + 1 + 4) mod 7)"
  proof (cases "(d + 4) mod 7 = 6")
    case True
    then have "(d + 1 + 4) mod 7 = 0" unfolding next_day by simp
    with True show ?thesis by (simp add: heat_each_valid [OF p])
  next
    case False
    have nonneg: "0 \<le> (d + 4) mod 7" by simp
    have "(d + 4) mod 7 < 7" by simp
    with False have "(d + 4) mod 7 + 1 < 7" by linarith
    with nonneg have "(d + 1 + 4) mod 7 = (d + 4) mod 7 + 1" unfolding next_day by simp
    with nonneg show ?thesis using False Cons.prems(2)
      by (simp add: heat_each_valid [OF p] nat_add_distrib)
  qed
  have seven: "\<forall>w \<in> set (weeks ?st). length w = 7"
    using Cons.prems(2,3) by (auto simp: heat_each_valid [OF p])
  have cat: "concat (weeks ?st) @ currentWeek ?st = concat (weeks st) @ currentWeek st @ [x]"
    by (simp add: heat_each_valid [OF p])
  from Cons.IH [OF rest len seven] cat show ?case
    by (simp add: add.commute add.left_commute)
qed

lemma sevens_nth:
  "\<forall>w \<in> set ws. length w = 7 \<Longrightarrow> k < length (concat ws)
   \<Longrightarrow> ws ! (k div 7) ! (k mod 7) = concat ws ! k"
proof (induction ws arbitrary: k)
  case Nil
  then show ?case by simp
next
  case (Cons w ws)
  then have lw: "length w = 7" by simp
  show ?case
  proof (cases "k < 7")
    case True
    with lw show ?thesis by (simp add: nth_append)
  next
    case False
    then obtain j where k: "k = j + 7" by (metis add.commute le_Suc_ex not_less)
    with Cons.prems lw have "j < length (concat ws)" by simp
    with Cons.IH Cons.prems(1) have "ws ! (j div 7) ! (j mod 7) = concat ws ! j" by simp
    with k lw show ?thesis by (simp add: nth_append)
  qed
qed

lemma consecutive_from_nth:
  "consecutive_from api d ds \<Longrightarrow> i < length ds \<Longrightarrow> parse_day api (date (ds ! i)) = Some (d + int i)"
proof (induction ds arbitrary: d i)
  case Nil
  then show ?case by simp
next
  case (Cons x xs)
  show ?case
  proof (cases i)
    case 0
    with Cons.prems show ?thesis by simp
  next
    case (Suc j)
    with Cons.prems have "consecutive_from api (d + 1) xs" and "j < length xs" by simp_all
    from Cons.IH [OF this] Suc show ?thesis by (simp add: add.assoc)
  qed
qed


lemma week_grid_consecutive:
  assumes "ds \<noteq> []" and "consecutive_from api d0 ds"
  shows "\<exists>ws. week_grid api (Some \<lparr>days = Some ds, max_requests = m\<rparr>) = Some ws
     \<and> (\<forall>w \<in> set ws. length w = 7)
     \<and> concat ws = replicate (nat ((d0 + 4) mod 7)) placeholder @ ds
          @ replicate ((7 - (nat ((d0 + 4) mod 7) + length ds) mod 7) mod 7) placeholder"
proof -
  define s where "s = nat ((d0 + 4) mod 7)"
  define init where "init = \<lparr>weeks = [], monthLabels = [],
      currentWeek = replicate s placeholder, currentMonth = Fin (- 1)\<rparr>"
  define st where "st = fold (heat_each api) ds init"
  define cw where "cw = currentWeek st"
  define wk where "wk = weeks st"
  obtain x xs where ds: "ds = x # xs" using assms(1) by (cases ds) auto
  with assms(2) have p: "parse_day api (date x) = Some d0" by simp
  have start: "pad_first_week (getUTCDay api (date x)) [] = Some (replicate s placeholder)"
    using p by (simp add: getUTCDay_def pad_first_week_def pad_front_replicate s_def)
  have i1: "length (currentWeek init) = nat ((d0 + 4) mod 7)"
    and i2: "\<forall>w \<in> set (weeks init). length w = 7"
    by (simp_all add: init_def s_def)
  have i3: "concat (weeks init) @ currentWeek init = replicate s placeholder"
    by (simp add: init_def)
  have tail: "nat ((d0 + int (length ds) + 4) mod 7) = (s + length ds) mod 7"
  proof -
    have "(d0 + int (length ds) + 4) mod 7 = ((d0 + 4) mod 7 + int (length ds)) mod 7"
      by (simp add: mod_simps algebra_simps)
    also have "\<dots> = int ((s + length ds) mod 7)"
      by (simp add: zmod_int s_def)
    finally show ?thesis by simp
  qed
  from heat_fold [OF assms(2) i1 i2]
  have f1: "concat wk @ cw = replicate s placeholder @ ds"
    and f2: "\<forall>w \<in> set wk. length w = 7"
    and f3: "length cw = (s + length ds) mod 7"
    unfolding st_def [symmetric] cw_def [symmetric] wk_def [symmetric] tail
    using i3 by simp_all
  define ws where "ws = (if 0 < length cw then wk @ [pad_back cw] else wk)"
  have "heat_weeks api (Some \<lparr>days = Some ds, max_requests = m\<rparr>)
      = Some (weeks (if 0 < length (currentWeek st)
                     then st\<lparr>weeks := weeks st @ [pad_back (currentWeek st)]\<rparr> else st),
              monthLabels (if 0 < length (currentWeek st)
                     then st\<lparr>weeks := weeks st @ [pad_back (currentWeek st)]\<rparr> else st))"
    unfolding st_def init_def using start by (simp add: heat_weeks_def ds Let_def)
  then have grid: "week_grid api (Some \<lparr>days = Some ds, max_requests = m\<rparr>) = Some ws"
    by (simp add: week_grid_def ws_def cw_def wk_def)
  have lt: "length cw < 7" unfolding f3 by simp
  then have lp: "length (pad_back cw) = 7" by (simp add: pad_back_replicate)
  have sevens: "\<forall>w \<in> set ws. length w = 7"
    using f2 lp by (simp add: ws_def)
  have cat: "concat ws = replicate s placeholder @ ds
          @ replicate ((7 - (s + length ds) mod 7) mod 7) placeholder"
  proof (cases "0 < length cw")
    case True
    then have "concat ws = (concat wk @ cw) @ replicate (7 - length cw) placeholder"
      by (simp add: ws_def pad_back_replicate)
    also have "\<dots> = replicate s placeholder @ ds @ replicate (7 - length cw) placeholder"
      unfolding f1 by simp
    also have "7 - length cw = (7 - (s + length ds) mod 7) mod 7"
      using True f3 by simp
    finally show ?thesis .
  next
    case False
    then have e: "cw = []" by simp
    with f3 have "(s + length ds) mod 7 = 0" by simp
    with e f1 False show ?thesis by (simp add: ws_def)
  qed
  from grid sevens cat show ?thesis unfolding s_def by blast
qed

text \<open>
  The bucketing of ActivityHeatmap.tsx. For a non-empty list of day records on
  consecutive calendar days, starting on day number \<open>d0\<close> (so that \<open>startDayOfWeek\<close> is
  \<open>(d0 + 4) mod 7\<close>): the weeks have exactly 7 cells; read in order, they are
  \<open>startDayOfWeek\<close> placeholder cells with the date \<open>''\<close> and \<open>-1\<close> requests, then the days
  in input order, then the placeholder cells that fill the last week; and day \<open>i\<close> is
  the cell of week \<open>(startDayOfWeek + i) div 7\<close> in column \<open>(startDayOfWeek + i) mod 7\<close>,
  which is its weekday (Sunday 0), so a Saturday is the last cell of its week and the
  day after it opens the next one.
\<close>

theorem heat_weeks_calendar:
  assumes "ds \<noteq> []" and "consecutive_from api d0 ds"
  shows "\<exists>ws. week_grid api (Some \<lparr>days = Some ds, max_requests = m\<rparr>) = Some ws
     \<and> (\<forall>w \<in> set ws. length w = 7)
     \<and> concat ws
         = replicate (nat ((d0 + 4) mod 7)) \<lparr>date = '''', requests = - 1, total_tokens = 0\<rparr>
           @ ds
           @ replicate ((7 - (nat ((d0 + 4) mod 7) + length ds) mod 7) mod 7)
               \<lparr>date = '''', requests = - 1, total_tokens = 0\<rparr>
     \<and> getUTCDay api (date (hd ds)) = Fin (int (nat ((d0 + 4) mod 7)))
     \<and> (\<forall>i < length ds.
           ws ! ((nat ((d0 + 4) mod 7) + i) div 7) ! ((nat ((d0 + 4) mod 7) + i) mod 7) = ds ! i
         \<and> getUTCDay api (date (ds ! i)) = Fin (int ((nat ((d0 + 4) mod 7) + i) mod 7)))"
proof -
  let ?s = "nat ((d0 + 4) mod 7)"
  let ?k = "(7 - (?s + length ds) mod 7) mod 7"
  from week_grid_consecutive [OF assms, of m] obtain ws where
    grid: "week_grid api (Some \<lparr>days = Some ds, max_requests = m\<rparr>) = Some ws"
    and sevens: "\<forall>w \<in> set ws. length w = 7"
    and cat: "concat ws = replicate ?s placeholder @ ds @ replicate ?k placeholder"
    by blast
  have first: "getUTCDay api (date (hd ds)) = Fin (int ?s)"
    using assms by (cases ds) (simp_all add: getUTCDay_def)
  have cells: "ws ! ((?s + i) div 7) ! ((?s + i) mod 7) = ds ! i
         \<and> getUTCDay api (date (ds ! i)) = Fin (int ((?s + i) mod 7))" if i: "i < length ds" for i
  proof -
    have "?s + i < length (concat ws)" using i by (simp add: cat)
    from sevens_nth [OF sevens this]
    have "ws ! ((?s + i) div 7) ! ((?s + i) mod 7) = concat ws ! (?s + i)" .
    also have "\<dots> = ds ! i" using i by (simp add: cat nth_append)
    finally have a: "ws ! ((?s + i) div 7) ! ((?s + i) mod 7) = ds ! i" .
    have "(d0 + int i + 4) mod 7 = ((d0 + 4) mod 7 + int i) mod 7"
      by (simp add: mod_simps algebra_simps)
    also have "\<dots> = int ((?s + i) mod 7)" by (simp add: zmod_int)
    finally have "getUTCDay api (date (ds ! i)) = Fin (int ((?s + i) mod 7))"
      using consecutive_from_nth [OF assms(2) i] by (simp add: getUTCDay_def)
    with a show ?thesis by simp
  qed
  have ph: "\<lparr>date = '''', requests = - 1, total_tokens = 0\<rparr> = placeholder"
    by (simp add: placeholder_def)
  from grid sevens cat first cells show ?thesis unfolding ph by blast
qed

theorem heat_weeks_calendar_witness:
  "five_days \<noteq> [] \<and> consecutive_from january_2024 19726 five_days
   \<and> week_grid january_2024 (Some \<lparr>days = Some five_days, max_requests = 7\<rparr>)
     = Some [[pad_cell, pad_cell, pad_cell, pad_cell,
              day_of ''2024-01-04'' 3, day_of ''2024-01-05'' 0, day_of ''2024-01-06'' 7],
             [day_of ''2024-01-07'' 1, day_of ''2024-01-08'' 2,
              pad_cell, pad_cell, pad_cell, pad_cell, pad_cell]]
   \<and> getUTCDay january_2024 ''2024-01-06'' = Fin 6"
proof -
  have pc: "pad_cell = placeholder" by (simp add: pad_cell_def placeholder_def)
  have a: "five_days \<noteq> []" by (simp add: five_days_def)
  have b: "consecutive_from january_2024 19726 five_days"
    by (simp add: five_days_def january_2024_def day_of_def)
  have r4: "replicate 4 placeholder = [placeholder, placeholder, placeholder, placeholder]"
    and r5: "replicate 5 placeholder
       = [placeholder, placeholder, placeholder, placeholder, placeholder]"
    by (simp_all add: numeral_eq_Suc)
  have grid: "week_grid january_2024 (Some \<lparr>days = Some five_days, max_requests = 7\<rparr>)
     = Some [[placeholder, placeholder, placeholder, placeholder,
              day_of ''2024-01-04'' 3, day_of ''2024-01-05'' 0, day_of ''2024-01-06'' 7],
             [day_of ''2024-01-07'' 1, day_of ''2024-01-08'' 2,
              placeholder, placeholder, placeholder, placeholder, placeholder]]"
    by (simp add: week_grid_def heat_weeks_def five_days_def january_2024_def day_of_def
        getUTCDay_def getUTCMonth_def pad_first_week_def pad_front_replicate pad_back_replicate
        heat_each_def js_eq_def Let_def r4 r5)
  have sat: "getUTCDay january_2024 ''2024-01-06'' = Fin 6"
    by (simp add: getUTCDay_def january_2024_def)
  from heat_weeks_calendar [OF a b, of 7] a b grid sat show ?thesis by (simp add: pc)
qed

text \<open>
  Claim C4. The older copy of the heatmap, in a zone west of UTC, puts Thursday
  4 January 2024 in the Wednesday column, behind three placeholder cells, where the copy
  that reads the weekday in UTC puts it in the Thursday column, its weekday.
\<close>

theorem heat_weeks_legacy_west_of_utc:
  "heat_weeks_legacy west_of_utc
       (Some \<lparr>days = Some [day_of ''2024-01-04'' 3], max_requests = 3\<rparr>)
     = Some ([[pad_cell, pad_cell, pad_cell, day_of ''2024-01-04'' 3,
               pad_cell, pad_cell, pad_cell]],
             [(Some (''1'' @ month_suffix), 0)])
   \<and> getDay west_of_utc ''2024-01-04'' = Fin 3
   \<and> getUTCDay january_2024 ''2024-01-04'' = Fin 4
   \<and> week_grid january_2024
       (Some \<lparr>days = Some [day_of ''2024-01-04'' 3], max_requests = 3\<rparr>)
     = Some [[pad_cell, pad_cell, pad_cell, pad_cell, day_of ''2024-01-04'' 3,
              pad_cell, pad_cell]]"
proof -
  have pc: "placeholder = pad_cell" by (simp add: pad_cell_def placeholder_def)
  have r: "replicate 3 pad_cell = [pad_cell, pad_cell, pad_cell]"
    "replicate 4 pad_cell = [pad_cell, pad_cell, pad_cell, pad_cell]"
    "replicate 2 pad_cell = [pad_cell, pad_cell]"
    by (simp_all add: numeral_eq_Suc)
  have d: "getDay west_of_utc ''2024-01-04'' = Fin 3"
    by (simp add: getDay_def west_of_utc_def msPerDay_def)
  have m: "getMonth west_of_utc ''2024-01-04'' = Fin 0"
    by (simp add: getMonth_def west_of_utc_def msPerDay_def)
  have u: "getUTCDay january_2024 ''2024-01-04'' = Fin 4"
    by (simp add: getUTCDay_def january_2024_def)
  have um: "getUTCMonth january_2024 ''2024-01-04'' = Fin 0"
    by (simp add: getUTCMonth_def january_2024_def)
  have l: "heat_weeks_legacy west_of_utc
       (Some \<lparr>days = Some [day_of ''2024-01-04'' 3], max_requests = 3\<rparr>)
     = Some ([[pad_cell, pad_cell, pad_cell, day_of ''2024-01-04'' 3,
               pad_cell, pad_cell, pad_cell]],
             [(Some (''1'' @ month_suffix), 0)])"
    by (simp add: heat_weeks_legacy_def heat_each_legacy_def day_of_def d m
        pad_first_week_def pad_front_replicate pad_back_replicate js_eq_def Let_def pc r
        months_at_def MONTHS_def show_nat.simps digit_chars)
  have n: "week_grid january_2024
       (Some \<lparr>days = Some [day_of ''2024-01-04'' 3], max_requests = 3\<rparr>)
     = Some [[pad_cell, pad_cell, pad_cell, pad_cell, day_of ''2024-01-04'' 3,
              pad_cell, pad_cell]]"
    by (simp add: week_grid_def heat_weeks_def heat_each_def day_of_def u um
        pad_first_week_def pad_front_replicate pad_back_replicate js_eq_def Let_def pc r)
  from l d u n show ?thesis by simp
qed

section \<open>Stats tables and charts: display states\<close>


lemma pad_first_week_getUTCDay: "\<exists>w. pad_first_week (getUTCDay api s) week = Some w"
  by (cases "parse_day api s") (simp_all add: getUTCDay_def pad_first_week_def)

lemma heat_weeks_returns: "\<exists>r. heat_weeks api d = Some r"
proof (cases d)
  case None
  then show ?thesis by (simp add: heat_weeks_def)
next
  case (Some h)
  show ?thesis
  proof (cases "days h")
    case None
    with Some show ?thesis by (simp add: heat_weeks_def)
  next
    case ds: (Some ds)
    show ?thesis
    proof (cases ds)
      case Nil
      with Some ds show ?thesis by (simp add: heat_weeks_def)
    next
      case (Cons x xs)
      obtain w where "pad_first_week (getUTCDay api (date x)) [] = Some w"
        using pad_first_week_getUTCDay by blast
      with Some ds Cons show ?thesis by (simp add: heat_weeks_def Let_def)
    qed
  qed
qed

lemma timeline_hasData_no_points: "timeline_hasData d = (\<not> no_points d)"
  by (auto simp: timeline_hasData_def no_points_def split: option.splits)

lemma heat_hasData_no_days: "heat_hasData d = (\<not> no_days d)"
  by (auto simp: heat_hasData_def no_days_def split: option.splits)

text \<open>
  Claim C7, as amended. Each of the four components shows its loading state when
  \<open>isLoading\<close> is set, otherwise its error state when \<open>hasError\<close> is set. Otherwise the
  two charts show the empty message when the data is empty or null and the data view
  when it is not, and the two tables, whose data is a list, show the empty message when
  the list is empty and the rows when it is not. (The heatmap always returns a view.)
\<close>

theorem display_states:
  "(data mp = Some mrows \<longrightarrow>
      (\<exists>view. ModelStatsTable mp = Inr view
         \<and> card_state view = state_as_specified (isLoading mp) (hasError mp) (mrows = [])))
   \<and> (isLoading mp = Some True \<longrightarrow> ModelStatsTable mp = Inr CardLoading)
   \<and> (isLoading mp \<noteq> Some True \<longrightarrow> hasError mp = Some True
        \<longrightarrow> ModelStatsTable mp = Inr CardError)
   \<and> (data pp = Some prows \<longrightarrow>
      (\<exists>view. ProviderStatsTable pp = Inr view
         \<and> card_state view = state_as_specified (isLoading pp) (hasError pp) (prows = [])))
   \<and> (isLoading pp = Some True \<longrightarrow> ProviderStatsTable pp = Inr CardLoading)
   \<and> (isLoading pp \<noteq> Some True \<longrightarrow> hasError pp = Some True
        \<longrightarrow> ProviderStatsTable pp = Inr CardError)
   \<and> timeline_state (RequestTimeline tp)
     = state_as_specified (isLoading tp) (hasError tp) (no_points (data tp))
   \<and> (\<exists>v. ActivityHeatmap api hp = Some v
        \<and> heat_state_of v = state_as_specified (isLoading hp) (hasError hp) (no_days (data hp)))"
proof -
  have m: "\<exists>view. ModelStatsTable mp = Inr view
         \<and> card_state view = state_as_specified (isLoading mp) (hasError mp) (mrows = [])"
    if "data mp = Some mrows"
    using that by (simp add: ModelStatsTable_def state_as_specified_def truthy_def)
  have m1: "ModelStatsTable mp = Inr CardLoading" if "isLoading mp = Some True"
    using that by (simp add: ModelStatsTable_def truthy_def)
  have m2: "ModelStatsTable mp = Inr CardError"
    if "isLoading mp \<noteq> Some True" "hasError mp = Some True"
    using that by (simp add: ModelStatsTable_def truthy_def)
  have p: "\<exists>view. ProviderStatsTable pp = Inr view
         \<and> card_state view = state_as_specified (isLoading pp) (hasError pp) (prows = [])"
    if "data pp = Some prows"
    using that by (simp add: ProviderStatsTable_def state_as_specified_def truthy_def)
  have p1: "ProviderStatsTable pp = Inr CardLoading" if "isLoading pp = Some True"
    using that by (simp add: ProviderStatsTable_def truthy_def)
  have p2: "ProviderStatsTable pp = Inr CardError"
    if "isLoading pp \<noteq> Some True" "hasError pp = Some True"
    using that by (simp add: ProviderStatsTable_def truthy_def)
  have t: "timeline_state (RequestTimeline tp)
     = state_as_specified (isLoading tp) (hasError tp) (no_points (data tp))"
    by (simp add: RequestTimeline_def state_as_specified_def truthy_def Let_def
        timeline_hasData_no_points)
  obtain ws labels where hw: "heat_weeks api (data hp) = Some (ws, labels)"
    using heat_weeks_returns [of api "data hp"] by auto
  have h: "\<exists>v. ActivityHeatmap api hp = Some v
        \<and> heat_state_of v = state_as_specified (isLoading hp) (hasError hp) (no_days (data hp))"
    by (simp add: ActivityHeatmap_def hw state_as_specified_def truthy_def Let_def
        heat_hasData_no_days)
  show ?thesis
    using m m1 m2 p p1 p2 t h by (intro conjI impI) blast+
qed

text \<open>
  The claim as first stated fails on the tables when the data is null and neither flag
  is set: the tables read \<open>data.length\<close> and throw, where the claim has them show the
  empty message.
\<close>

theorem display_states_counterexample:
  "ModelStatsTable \<lparr>data = (None :: nat list option), isLoading = None, hasError = None\<rparr>
     = Inl TypeError
   \<and> ProviderStatsTable \<lparr>data = (None :: nat list option), isLoading = Some False,
        hasError = Some False\<rparr> = Inl TypeError"
  by (simp add: ModelStatsTable_def ProviderStatsTable_def truthy_def)

theorem display_states_witness:
  "ModelStatsTable \<lparr>data = Some [1::nat], isLoading = Some True, hasError = Some True\<rparr>
     = Inr CardLoading
   \<and> ProviderStatsTable \<lparr>data = Some [1::nat], isLoading = None, hasError = Some True\<rparr>
     = Inr CardError
   \<and> ModelStatsTable \<lparr>data = Some ([]::nat list), isLoading = None, hasError = None\<rparr>
     = Inr (CardTable EmptyRow)
   \<and> ProviderStatsTable \<lparr>data = Some [1::nat], isLoading = None, hasError = None\<rparr>
     = Inr (CardTable (DataRows [1]))
   \<and> timeline_state (RequestTimeline
        \<lparr>data = Some \<lparr>points = Some []\<rparr>, isLoading = None, hasError = Some False,
         title = None\<rparr>) = ShowsEmpty
   \<and> timeline_state (RequestTimeline
        \<lparr>data = None, isLoading = None, hasError = None, title = None\<rparr>) = ShowsEmpty
   \<and> ActivityHeatmap january_2024
        \<lparr>data = Some \<lparr>days = Some [day_of ''2024-01-06'' 7], max_requests = 7\<rparr>,
         isLoading = Some False, hasError = None, title = None\<rparr>
     = Some (HeatGrid None
         \<lparr>activeDays = 1, grid_max_requests = 7,
          grid_weeks = [[placeholder, placeholder, placeholder, placeholder, placeholder,
                         placeholder, day_of ''2024-01-06'' 7]],
          grid_monthLabels = [(Some (''1'' @ month_suffix), 0)]\<rparr>)"
proof -
  have r6: "replicate 6 placeholder
      = [placeholder, placeholder, placeholder, placeholder, placeholder, placeholder]"
    by (simp add: numeral_eq_Suc)
  have grid: "ActivityHeatmap january_2024
        \<lparr>data = Some \<lparr>days = Some [day_of ''2024-01-06'' 7], max_requests = 7\<rparr>,
         isLoading = Some False, hasError = None, title = None\<rparr>
     = Some (HeatGrid None
         \<lparr>activeDays = 1, grid_max_requests = 7,
          grid_weeks = [[placeholder, placeholder, placeholder, placeholder, placeholder,
                         placeholder, day_of ''2024-01-06'' 7]],
          grid_monthLabels = [(Some (''1'' @ month_suffix), 0)]\<rparr>)"
    by (simp add: ActivityHeatmap_def heat_weeks_def january_2024_def day_of_def
        getUTCDay_def getUTCMonth_def pad_first_week_def pad_front_replicate
        heat_each_def js_eq_def Let_def r6 heat_hasData_def truthy_def months_at_def MONTHS_def
        show_nat.simps digit_chars)
  have tables: "ModelStatsTable \<lparr>data = Some ([]::nat list), isLoading = None, hasError = None\<rparr>
     = Inr (CardTable EmptyRow)"
    "ProviderStatsTable \<lparr>data = Some [1::nat], isLoading = None, hasError = None\<rparr>
     = Inr (CardTable (DataRows [1]))"
    by (simp_all add: ModelStatsTable_def ProviderStatsTable_def truthy_def)
  from display_states [where
      mp = "\<lparr>data = Some [1::nat], isLoading = Some True, hasError = Some True\<rparr>"
      and mrows = "[1::nat]"
      and pp = "\<lparr>data = Some [1::nat], isLoading = None, hasError = Some True\<rparr>"
      and prows = "[1::nat]"
      and tp = "\<lparr>data = Some \<lparr>points = Some []\<rparr>, isLoading = None,
         hasError = Some False, title = None\<rparr>"
      and api = january_2024
      and hp = "\<lparr>data = Some \<lparr>days = Some [day_of ''2024-01-06'' 7],
         max_requests = 7\<rparr>, isLoading = Some False, hasError = None, title = None\<rparr>"]
    display_states [where
      mp = "\<lparr>data = Some [1::nat], isLoading = Some True, hasError = Some True\<rparr>"
      and mrows = "[1::nat]"
      and pp = "\<lparr>data = Some [1::nat], isLoading = None, hasError = Some True\<rparr>"
      and prows = "[1::nat]"
      and tp = "\<lparr>data = None, isLoading = None, hasError = None, title = None\<rparr>"
      and api = january_2024
      and hp = "\<lparr>data = Some \<lparr>days = Some [day_of ''2024-01-06'' 7],
         max_requests = 7\<rparr>, isLoading = Some False, hasError = None, title = None\<rparr>"]
    grid tables
  show ?thesis
    by (simp add: state_as_specified_def no_points_def)
qed

section \<open>JSON viewer: escaping and tokens\<close>

lemma replace_all_Nil: "replace_all c r [] = []"
  by (simp add: replace_all_def)

lemma replace_all_Cons: "replace_all c r (x # xs) = (if x = c then r else [x]) @ replace_all c r xs"
  by (simp add: replace_all_def)

lemma replace_all_append: "replace_all c r (xs @ ys) = replace_all c r xs @ replace_all c r ys"
  by (simp add: replace_all_def)

lemma escapeHtml_Nil: "escapeHtml [] = []"
  by (simp add: escapeHtml_def replace_all_Nil)

lemma escapeHtml_Cons: "escapeHtml (x # xs) = escape_char x @ escapeHtml xs"
  by (simp add: escapeHtml_def escape_char_def replace_all_Cons replace_all_append
      replace_all_Nil dquote_def)

lemma escapeHtml_chars: "escapeHtml s = concat (map escape_char s)"
  by (induction s) (simp_all add: escapeHtml_Nil escapeHtml_Cons)

lemma getTokenHtml_escaped: "getTokenHtml v ty = escaped_span v ty"
  by (simp add: getTokenHtml_def escaped_span_def escapeHtml_chars)

lemma escape_char_safe:
  "CHR ''<'' \<notin> set (escape_char c)" "CHR ''>'' \<notin> set (escape_char c)"
  "dquote \<notin> set (escape_char c)"
  by (auto simp: escape_char_def dquote_def)

lemma escapeHtml_safe:
  "CHR ''<'' \<notin> set (escapeHtml s)" "CHR ''>'' \<notin> set (escapeHtml s)"
  "dquote \<notin> set (escapeHtml s)"
  using escape_char_safe by (auto simp: escapeHtml_chars)

lemma tokens_html_Nil: "tokens_html [] = []"
  by (simp add: tokens_html_def)

lemma tokens_html_append: "tokens_html (xs @ ys) = tokens_html xs @ tokens_html ys"
  by (simp add: tokens_html_def)

lemma tokens_html_single: "tokens_html [(v, ty)] = getTokenHtml v ty"
  by (simp add: tokens_html_def getTokenHtml_escaped)

lemma key_prefix_tokens:
  "key_prefix k = tokens_html [([dquote] @ k @ [dquote], TKey), ('': '', TPunctuation)]"
  by (simp add: key_prefix_def tokens_html_def getTokenHtml_escaped)

lemma plain_line_tokens:
  "made_of_tokens (tokens_html toks @ getTokenHtml v ty @ comma_of isLast)"
proof -
  have "tokens_html toks @ getTokenHtml v ty = tokens_html (toks @ [(v, ty)])"
    by (simp add: tokens_html_append tokens_html_single)
  then show ?thesis
    unfolding made_of_tokens_def comma_of_def
    by (cases isLast) (metis append.assoc append_Nil2 if_True, metis append.assoc if_False)
qed

lemma closing_line_tokens: "made_of_tokens (getTokenHtml v ty @ comma_of isLast)"
  using plain_line_tokens [of "[]" v ty isLast] by (simp add: tokens_html_Nil)


lemma all_tokens_push_line:
  "all_tokens st \<Longrightarrow> made_of_tokens h \<Longrightarrow> all_tokens (push_line ind h st)"
  by (simp add: all_tokens_def push_line_def line_of_tokens_def)

lemma all_tokens_getBlockId: "all_tokens (snd (getBlockId st)) = all_tokens st"
  by (simp add: all_tokens_def getBlockId_def)

lemma all_tokens_push_block_start:
  "all_tokens st \<Longrightarrow>
   all_tokens (push_block_start ind (tokens_html toks @ getTokenHtml v ty) bid info closing
                 (comma_of isLast) st)"
proof -
  have eq: "tokens_html toks @ getTokenHtml v ty = tokens_html (toks @ [(v, ty)])"
    by (simp add: tokens_html_append tokens_html_single)
  have m: "made_of_tokens (tokens_html (toks @ [(v, ty)]))"
    unfolding made_of_tokens_def by blast
  assume "all_tokens st"
  then show ?thesis
    unfolding eq using m
    by (auto simp: all_tokens_def push_block_start_def line_of_tokens_def comma_of_def)
qed

lemma line_of_tokens_blockEnd: "line_of_tokens (l\<lparr>blockEnd := e\<rparr>) = line_of_tokens l"
  by (simp add: line_of_tokens_def)

lemma all_tokens_set_blockEnd: "all_tokens st \<Longrightarrow> all_tokens (set_blockEnd i st)"
proof -
  assume a: "all_tokens st"
  show ?thesis
  proof (cases "i < length (result st)")
    case True
    with a have "line_of_tokens (result st ! i)" by (simp add: all_tokens_def)
    then have "line_of_tokens ((result st ! i)\<lparr>blockEnd := Some (length (result st) - 1)\<rparr>)"
      by (simp add: line_of_tokens_blockEnd)
    with a show ?thesis
      by (auto simp: all_tokens_def set_blockEnd_def dest!: set_update_subset_insert [THEN subsetD])
  next
    case False
    then have "(result st)[i := (result st ! i)\<lparr>blockEnd := Some (length (result st) - 1)\<rparr>]
        = result st"
      by (intro list_update_beyond) simp
    with a show ?thesis by (simp add: all_tokens_def set_blockEnd_def)
  qed
qed

lemma process_tokens:
  "all_tokens st \<Longrightarrow> keyPrefix = tokens_html toks
     \<Longrightarrow> all_tokens (processValue v ind isLast keyPrefix st)"
  "all_tokens st \<Longrightarrow> all_tokens (processItems items ind st)"
  "all_tokens st \<Longrightarrow> all_tokens (processEntries entries ind st)"
proof (induction v ind isLast keyPrefix st and items ind st and entries ind st
       arbitrary: toks rule: processValue_processItems_processEntries.induct)
  case (1 ind isLast keyPrefix st)
  then show ?case by (simp add: all_tokens_push_line plain_line_tokens)
next
  case (2 b ind isLast keyPrefix st)
  then show ?case by (simp add: all_tokens_push_line plain_line_tokens)
next
  case (3 n ind isLast keyPrefix st)
  then show ?case by (simp add: all_tokens_push_line plain_line_tokens)
next
  case (4 s ind isLast keyPrefix st)
  then show ?case by (simp add: all_tokens_push_line plain_line_tokens)
next
  case (5 items ind isLast keyPrefix st)
  show ?case
  proof (cases "length items = 0")
    case True
    with 5 show ?thesis by (simp add: all_tokens_push_line plain_line_tokens)
  next
    case False
    obtain bid st1 where g: "getBlockId st = (bid, st1)" by (cases "getBlockId st")
    then have a1: "all_tokens st1"
      using "5.prems"(1) all_tokens_getBlockId [of st] by simp
    let ?st2 = "push_block_start ind (keyPrefix @ getTokenHtml ''['' TBracket) bid
                     (show_nat (length items) @ '' items'') '']'' (comma_of isLast) st1"
    have a2: "all_tokens ?st2"
      unfolding "5.prems"(2) using a1 by (rule all_tokens_push_block_start)
    have a3: "all_tokens (processItems items (ind + 1) ?st2)"
      using "5.IH" [OF False g [symmetric] refl refl refl a2] .
    then show ?thesis
      using False g
      by (simp add: Let_def all_tokens_set_blockEnd all_tokens_push_line closing_line_tokens)
  qed
next
  case (6 plain entries ind isLast keyPrefix st)
  show ?case
  proof (cases "length entries = 0")
    case True
    with 6 show ?thesis by (simp add: all_tokens_push_line plain_line_tokens)
  next
    case False
    obtain bid st1 where g: "getBlockId st = (bid, st1)" by (cases "getBlockId st")
    then have a1: "all_tokens st1"
      using "6.prems"(1) all_tokens_getBlockId [of st] by simp
    let ?st2 = "push_block_start ind (keyPrefix @ getTokenHtml ''{'' TBracket) bid
                     (show_nat (length entries) @ '' keys'') ''}'' (comma_of isLast) st1"
    have a2: "all_tokens ?st2"
      unfolding "6.prems"(2) using a1 by (rule all_tokens_push_block_start)
    have a3: "all_tokens (processEntries entries (ind + 1) ?st2)"
      using "6.IH" [OF False g [symmetric] refl refl refl a2] .
    then show ?thesis
      using False g
      by (simp add: Let_def all_tokens_set_blockEnd all_tokens_push_line closing_line_tokens)
  qed
next
  case (7 s ind isLast keyPrefix st)
  then show ?case by (simp add: all_tokens_push_line plain_line_tokens)
next
  case (8 ind st)
  then show ?case by simp
next
  case (9 item rest ind st)
  have "all_tokens (processValue item ind (rest = []) '''' st)"
    using "9.IH"(1) [OF "9.prems", of "[]"] by (simp add: tokens_html_Nil)
  then show ?case using "9.IH"(2) by simp
next
  case (10 ind st)
  then show ?case by simp
next
  case (11 key v rest ind st)
  have "all_tokens (processValue v ind (rest = []) (key_prefix key) st)"
    using "11.IH"(1) [OF "11.prems" key_prefix_tokens] .
  then show ?case using "11.IH"(2) by simp
qed

lemma parseJsonToLines_tokens: "l \<in> set (parseJsonToLines v) \<Longrightarrow> line_of_tokens l"
proof -
  have "all_tokens \<lparr>result = [], next_lineNumber = 1, blockIdCounter = 0\<rparr>"
    by (simp add: all_tokens_def)
  from process_tokens(1) [OF this, of "''''" "[]"]
  have "all_tokens (processValue v 0 True '''' \<lparr>result = [], next_lineNumber = 1, blockIdCounter = 0\<rparr>)"
    by (simp add: tokens_html_Nil)
  then show "l \<in> set (parseJsonToLines v) \<Longrightarrow> line_of_tokens l"
    by (simp add: all_tokens_def parseJsonToLines_def)
qed

lemma displayHtml_tokens:
  assumes "line_of_tokens l"
  shows "made_of_tokens (displayHtml (render_line collapsed l))"
proof (cases "canFold l \<and> blockId l \<in> set collapsed")
  case False
  with assms show ?thesis by (auto simp: render_line_def line_of_tokens_def Let_def)
next
  case True
  with assms obtain toks b where h: "html l = tokens_html toks"
    and cb: "closingBracket l = Some b"
    and tc: "trailingComma l = Some '''' \<or> trailingComma l = Some '',''"
    by (auto simp: line_of_tokens_def)
  have d: "displayHtml (render_line collapsed l)
      = tokens_html (toks @ [(ellipsis_text, TEllipsis), (b, TBracket)])
        @ (case trailingComma l of None \<Rightarrow> '''' | Some c \<Rightarrow> c)"
    using True h cb
    by (simp add: render_line_def Let_def tokens_html_append tokens_html_def getTokenHtml_escaped)
  from tc show ?thesis
  proof
    assume "trailingComma l = Some ''''"
    with d show ?thesis unfolding made_of_tokens_def by auto
  next
    assume "trailingComma l = Some '',''"
    with d show ?thesis unfolding made_of_tokens_def by auto
  qed
qed

lemma htmls_push_line: "htmls (push_line ind h st) = insert h (htmls st)"
  by (simp add: htmls_def push_line_def)

lemma htmls_push_block_start:
  "htmls (push_block_start ind h bid info closing comma st) = insert h (htmls st)"
  by (simp add: htmls_def push_block_start_def)

lemma htmls_counter: "htmls (st\<lparr>blockIdCounter := c\<rparr>) = htmls st"
  by (simp add: htmls_def)

lemma map_html_blockEnd:
  "map html (xs[i := (xs ! i)\<lparr>blockEnd := e\<rparr>]) = map html xs"
proof (cases "i < length xs")
  case True
  then show ?thesis by (simp add: map_update list_update_same_conv)
next
  case False
  then have "xs[i := (xs ! i)\<lparr>blockEnd := e\<rparr>] = xs"
    by (intro list_update_beyond) simp
  then show ?thesis by simp
qed

lemma htmls_set_blockEnd: "htmls (set_blockEnd i st) = htmls st"
proof -
  have "map html (result (set_blockEnd i st)) = map html (result st)"
    by (simp add: set_blockEnd_def map_html_blockEnd)
  then have "set (map html (result (set_blockEnd i st))) = set (map html (result st))"
    by simp
  then show ?thesis by (simp add: htmls_def)
qed

lemma embeds_mono: "embeds H t \<Longrightarrow> H \<subseteq> H' \<Longrightarrow> embeds H' t"
  unfolding embeds_def by blast

lemma embeds_insert: "embeds (insert (pre @ t @ post) H) t"
  unfolding embeds_def by blast

lemma embeds_prefix: "embeds H (a @ b) \<Longrightarrow> embeds H a"
proof -
  assume "embeds H (a @ b)"
  then obtain h pre post where "h \<in> H" and "h = pre @ (a @ b) @ post"
    unfolding embeds_def by blast
  then have "h \<in> H" and "h = pre @ a @ (b @ post)" by simp_all
  then show "embeds H a" unfolding embeds_def by blast
qed

lemma embedded_all_refl: "embedded_all st st [] []"
  by (simp add: embedded_all_def)

lemma embedded_all_trans:
  assumes "embedded_all a b ks ss" and "embedded_all b c ks' ss'"
  shows "embedded_all a c (ks @ ks') (ss @ ss')"
proof -
  from assms have sub: "htmls a \<subseteq> htmls b" "htmls b \<subseteq> htmls c"
    by (simp_all add: embedded_all_def)
  have k: "embeds (htmls c) (escaped_span ([dquote] @ k @ [dquote]) TKey)"
    if "k \<in> set (ks @ ks')" for k
  proof (cases "k \<in> set ks")
    case True
    with assms(1) have "embeds (htmls b) (escaped_span ([dquote] @ k @ [dquote]) TKey)"
      by (simp add: embedded_all_def)
    then show ?thesis using sub(2) by (rule embeds_mono)
  next
    case False
    with that have "k \<in> set ks'" by simp
    with assms(2) show ?thesis by (simp add: embedded_all_def)
  qed
  have s: "embeds (htmls c) (escaped_span ([dquote] @ s @ [dquote]) TString)"
    if "s \<in> set (ss @ ss')" for s
  proof (cases "s \<in> set ss")
    case True
    with assms(1) have "embeds (htmls b) (escaped_span ([dquote] @ s @ [dquote]) TString)"
      by (simp add: embedded_all_def)
    then show ?thesis using sub(2) by (rule embeds_mono)
  next
    case False
    with that have "s \<in> set ss'" by simp
    with assms(2) show ?thesis by (simp add: embedded_all_def)
  qed
  from sub k s show ?thesis unfolding embedded_all_def by blast
qed

lemma embedded_add_key:
  assumes "embedded_all st st' ks ss"
    and "embeds (htmls st') (escaped_span ([dquote] @ k @ [dquote]) TKey)"
  shows "embedded_all st st' (k # ks) ss"
  using assms by (simp add: embedded_all_def)

lemma embedded_plain:
  "embedded_all st (push_line ind (keyPrefix @ tok @ c) st) [] []
   \<and> embeds (htmls (push_line ind (keyPrefix @ tok @ c) st)) keyPrefix"
proof -
  have "embeds (insert ([] @ keyPrefix @ (tok @ c)) (htmls st)) keyPrefix"
    by (rule embeds_insert)
  then show ?thesis by (auto simp: embedded_all_def htmls_push_line)
qed

lemma embedded_string:
  "embedded_all st
     (push_line ind (keyPrefix @ getTokenHtml ([dquote] @ s @ [dquote]) TString @ c) st) [] [s]
   \<and> embeds (htmls (push_line ind
        (keyPrefix @ getTokenHtml ([dquote] @ s @ [dquote]) TString @ c) st)) keyPrefix"
proof -
  let ?h = "keyPrefix @ getTokenHtml ([dquote] @ s @ [dquote]) TString @ c"
  have "embeds (insert (keyPrefix @ escaped_span ([dquote] @ s @ [dquote]) TString @ c) (htmls st))
      (escaped_span ([dquote] @ s @ [dquote]) TString)"
    by (rule embeds_insert)
  then have a: "embeds (htmls (push_line ind ?h st)) (escaped_span ([dquote] @ s @ [dquote]) TString)"
    by (simp add: htmls_push_line getTokenHtml_escaped)
  have "embeds (insert ([] @ keyPrefix @ (getTokenHtml ([dquote] @ s @ [dquote]) TString @ c))
      (htmls st)) keyPrefix"
    by (rule embeds_insert)
  then have b: "embeds (htmls (push_line ind ?h st)) keyPrefix"
    by (simp add: htmls_push_line)
  have "htmls st \<subseteq> htmls (push_line ind ?h st)" by (auto simp: htmls_push_line)
  with a b show ?thesis by (simp add: embedded_all_def)
qed

lemma embedded_block:
  assumes "embedded_all
      (push_block_start ind (keyPrefix @ tok) bid info closing comma
         (st\<lparr>blockIdCounter := c\<rparr>)) st3 ks ss"
  shows "embedded_all st (set_blockEnd i (push_line ind h st3)) ks ss
   \<and> embeds (htmls (set_blockEnd i (push_line ind h st3))) keyPrefix"
proof -
  let ?st2 = "push_block_start ind (keyPrefix @ tok) bid info closing comma
      (st\<lparr>blockIdCounter := c\<rparr>)"
  let ?st5 = "set_blockEnd i (push_line ind h st3)"
  have h2: "htmls ?st2 = insert (keyPrefix @ tok) (htmls st)"
    by (simp add: htmls_push_block_start htmls_counter)
  have h5: "htmls ?st5 = insert h (htmls st3)"
    by (simp add: htmls_set_blockEnd htmls_push_line)
  from assms have s23: "htmls ?st2 \<subseteq> htmls st3" by (simp add: embedded_all_def)
  have s35: "htmls st3 \<subseteq> htmls ?st5" unfolding h5 by blast
  have "embedded_all st3 ?st5 [] []" using s35 by (simp add: embedded_all_def)
  from embedded_all_trans [OF assms this]
  have "embedded_all ?st2 ?st5 ks ss" by simp
  moreover have "htmls st \<subseteq> htmls ?st2" unfolding h2 by blast
  ultimately have a: "embedded_all st ?st5 ks ss"
    unfolding embedded_all_def by blast
  have "embeds (insert ([] @ keyPrefix @ tok) (htmls st)) keyPrefix"
    by (rule embeds_insert)
  then have "embeds (htmls ?st2) keyPrefix" by (simp add: h2)
  moreover have "htmls ?st2 \<subseteq> htmls ?st5" using s23 s35 by (rule subset_trans)
  ultimately have "embeds (htmls ?st5) keyPrefix" by (rule embeds_mono)
  with a show ?thesis by simp
qed

lemma process_embeds:
  "embedded_all st (processValue v ind isLast keyPrefix st) (keys_of v) (strings_of v)
   \<and> embeds (htmls (processValue v ind isLast keyPrefix st)) keyPrefix"
  "embedded_all st (processItems items ind st) (keys_of_items items) (strings_of_items items)"
  "embedded_all st (processEntries entries ind st)
     (keys_of_entries entries) (strings_of_entries entries)"
proof (induction v ind isLast keyPrefix st and items ind st and entries ind st
       rule: processValue_processItems_processEntries.induct)
  case (1 ind isLast keyPrefix st)
  show ?case using embedded_plain by simp
next
  case (2 b ind isLast keyPrefix st)
  show ?case using embedded_plain by simp
next
  case (3 n ind isLast keyPrefix st)
  show ?case using embedded_plain by simp
next
  case (4 s ind isLast keyPrefix st)
  show ?case using embedded_string by simp
next
  case (5 items ind isLast keyPrefix st)
  show ?case
  proof (cases "length items = 0")
    case True
    then show ?thesis using embedded_plain by simp
  next
    case False
    let ?st1 = "st\<lparr>blockIdCounter := blockIdCounter st + 1\<rparr>"
    have g: "(block_name (blockIdCounter st), ?st1) = getBlockId st"
      by (simp add: getBlockId_def)
    let ?st2 = "push_block_start ind (keyPrefix @ getTokenHtml ''['' TBracket)
                  (block_name (blockIdCounter st))
                  (show_nat (length items) @ '' items'') '']'' (comma_of isLast) ?st1"
    have "embedded_all ?st2 (processItems items (ind + 1) ?st2)
        (keys_of_items items) (strings_of_items items)"
      using "5.IH" [OF False g refl refl refl] .
    from embedded_block [OF this] False show ?thesis
      by (simp add: getBlockId_def Let_def)
  qed
next
  case (6 plain entries ind isLast keyPrefix st)
  show ?case
  proof (cases "length entries = 0")
    case True
    then show ?thesis using embedded_plain by simp
  next
    case False
    let ?st1 = "st\<lparr>blockIdCounter := blockIdCounter st + 1\<rparr>"
    have g: "(block_name (blockIdCounter st), ?st1) = getBlockId st"
      by (simp add: getBlockId_def)
    let ?st2 = "push_block_start ind (keyPrefix @ getTokenHtml ''{'' TBracket)
                  (block_name (blockIdCounter st))
                  (show_nat (length entries) @ '' keys'') ''}'' (comma_of isLast) ?st1"
    have "embedded_all ?st2 (processEntries entries (ind + 1) ?st2)
        (keys_of_entries entries) (strings_of_entries entries)"
      using "6.IH" [OF False g refl refl refl] .
    from embedded_block [OF this] False show ?thesis
      by (simp add: getBlockId_def Let_def)
  qed
next
  case (7 s ind isLast keyPrefix st)
  show ?case using embedded_plain by simp
next
  case (8 ind st)
  show ?case by (simp add: embedded_all_refl)
next
  case (9 item rest ind st)
  from "9.IH"(1) have "embedded_all st (processValue item ind (rest = []) '''' st)
      (keys_of item) (strings_of item)" by simp
  from embedded_all_trans [OF this "9.IH"(2)] show ?case by simp
next
  case (10 ind st)
  show ?case by (simp add: embedded_all_refl)
next
  case (11 key v rest ind st)
  let ?st1 = "processValue v ind (rest = []) (key_prefix key) st"
  from "11.IH"(1) have a: "embedded_all st ?st1 (keys_of v) (strings_of v)"
    and p: "embeds (htmls ?st1) (key_prefix key)" by simp_all
  have "key_prefix key = escaped_span ([dquote] @ key @ [dquote]) TKey
      @ getTokenHtml '': '' TPunctuation"
    by (simp add: key_prefix_def getTokenHtml_escaped)
  with p have "embeds (htmls ?st1) (escaped_span ([dquote] @ key @ [dquote]) TKey)"
    by (simp add: embeds_prefix)
  with a have "embedded_all st ?st1 (key # keys_of v) (strings_of v)"
    by (rule embedded_add_key)
  from embedded_all_trans [OF this "11.IH"(2)] show ?case by simp
qed

lemma parseJsonToLines_embeds:
  "(\<forall>k \<in> set (keys_of v). \<exists>l \<in> set (parseJsonToLines v). \<exists>pre post.
       html l = pre @ escaped_span ([dquote] @ k @ [dquote]) TKey @ post)
   \<and> (\<forall>t \<in> set (strings_of v). \<exists>l \<in> set (parseJsonToLines v). \<exists>pre post.
       html l = pre @ escaped_span ([dquote] @ t @ [dquote]) TString @ post)"
proof -
  let ?init = "\<lparr>result = [], next_lineNumber = 1, blockIdCounter = 0\<rparr>"
  from process_embeds(1) [of ?init v 0 True "''''"]
  have "embedded_all ?init (processValue v 0 True '''' ?init) (keys_of v) (strings_of v)"
    by simp
  then show ?thesis
    unfolding embedded_all_def embeds_def htmls_def parseJsonToLines_def by blast
qed


section \<open>JSON viewer: blocks and folding\<close>

lemma block_name_inj: "block_name m = block_name n \<Longrightarrow> m = n"
  by (simp add: block_name_def show_nat_inj)

lemma block_name_nonempty: "block_name n \<noteq> []"
  by (simp add: block_name_def)

lemma segment_ok_Nil: "segment_ok off c c []"
  by (simp add: segment_ok_def)

lemma block_closed_append_right:
  "block_closed off xs l \<Longrightarrow> block_closed off (xs @ ys) l"
  unfolding block_closed_def
proof (elim exE conjE)
  fix pre mid c post
  assume "xs = pre @ [l] @ mid @ [c] @ post"
    and e: "blockEnd l = Some (off + length pre + length mid + 1)" and cl: "closes l c"
  then have "xs @ ys = pre @ [l] @ mid @ [c] @ (post @ ys)" by simp
  with e cl show "\<exists>pre mid c post. xs @ ys = pre @ [l] @ mid @ [c] @ post
      \<and> blockEnd l = Some (off + length pre + length mid + 1) \<and> closes l c"
    by blast
qed

lemma block_closed_append_left:
  "block_closed (off + length xs) ys l \<Longrightarrow> block_closed off (xs @ ys) l"
  unfolding block_closed_def
proof (elim exE conjE)
  fix pre mid c post
  assume "ys = pre @ [l] @ mid @ [c] @ post"
    and e: "blockEnd l = Some (off + length xs + length pre + length mid + 1)"
    and cl: "closes l c"
  then have "xs @ ys = (xs @ pre) @ [l] @ mid @ [c] @ post" by simp
  moreover have "blockEnd l = Some (off + length (xs @ pre) + length mid + 1)"
    using e by (simp add: add.assoc)
  ultimately show "\<exists>pre mid c post. xs @ ys = pre @ [l] @ mid @ [c] @ post
      \<and> blockEnd l = Some (off + length pre + length mid + 1) \<and> closes l c"
    using cl by blast
qed

lemma segment_ok_append:
  assumes x: "segment_ok off c c1 xs" and y: "segment_ok (off + length xs) c1 c2 ys"
    and le1: "c \<le> c1" and le2: "c1 \<le> c2"
  shows "segment_ok off c c2 (xs @ ys)"
proof -
  have ids: "map line_id (xs @ ys) = [off..<off + length (xs @ ys)]"
  proof -
    have "[off..<off + length xs + length ys]
        = [off..<off + length xs] @ [off + length xs..<off + length xs + length ys]"
      by (rule upt_add_eq_append) simp
    with x y show ?thesis by (simp add: segment_ok_def add.assoc)
  qed
  have closed: "\<forall>l \<in> set (xs @ ys). canFold l \<longrightarrow> block_closed off (xs @ ys) l"
    using x y by (auto simp: segment_ok_def intro: block_closed_append_right block_closed_append_left)
  have sx: "\<forall>l \<in> set xs. canFold l \<longrightarrow> (\<exists>k. c \<le> k \<and> k < c1 \<and> blockId l = block_name k)"
    and sy: "\<forall>l \<in> set ys. canFold l \<longrightarrow> (\<exists>k. c1 \<le> k \<and> k < c2 \<and> blockId l = block_name k)"
    using x y by (simp_all add: segment_ok_def)
  have disj: "set (map blockId (filter canFold xs)) \<inter> set (map blockId (filter canFold ys)) = {}"
  proof (rule ccontr)
    assume "set (map blockId (filter canFold xs)) \<inter> set (map blockId (filter canFold ys)) \<noteq> {}"
    then obtain a b where a: "a \<in> set xs" "canFold a" and b: "b \<in> set ys" "canFold b"
      and eq: "blockId a = blockId b" by auto
    from sx a obtain k where k: "k < c1" "blockId a = block_name k" by blast
    from sy b obtain m where m: "c1 \<le> m" "blockId b = block_name m" by blast
    from k m eq have "k = m" by (intro block_name_inj) simp
    with k m show False by simp
  qed
  have dist: "distinct (map blockId (filter canFold (xs @ ys)))"
    using x y disj by (simp add: segment_ok_def)
  have names: "\<forall>l \<in> set (xs @ ys). canFold l
      \<longrightarrow> (\<exists>k. c \<le> k \<and> k < c2 \<and> blockId l = block_name k)"
  proof (intro ballI impI)
    fix l assume "l \<in> set (xs @ ys)" and f: "canFold l"
    then consider "l \<in> set xs" | "l \<in> set ys" by auto
    then show "\<exists>k. c \<le> k \<and> k < c2 \<and> blockId l = block_name k"
    proof cases
      case 1
      with sx f obtain k where "c \<le> k" "k < c1" "blockId l = block_name k" by blast
      with le2 show ?thesis by (intro exI [of _ k]) simp
    next
      case 2
      with sy f obtain k where "c1 \<le> k" "k < c2" "blockId l = block_name k" by blast
      with le1 show ?thesis by (intro exI [of _ k]) simp
    qed
  qed
  from ids closed dist names show ?thesis unfolding segment_ok_def by blast
qed

lemma segment_ok_plain:
  "\<not> canFold l \<Longrightarrow> line_id l = off \<Longrightarrow> segment_ok off c c [l]"
  by (simp add: segment_ok_def)

lemma segment_ok_wrap:
  assumes mid: "segment_ok (off + 1) (c + 1) c' mid"
    and le: "c + 1 \<le> c'"
    and s: "canFold s" "blockId s = block_name c" "line_id s = off"
      "blockEnd s = Some (off + length mid + 1)"
    and cl: "closes s cl" "line_id cl = off + length mid + 1"
  shows "segment_ok off c c' (s # mid @ [cl])"
proof -
  have ncl: "\<not> canFold cl" using cl(1) by (simp add: closes_def)
  have ids: "map line_id (s # mid @ [cl]) = [off..<off + length (s # mid @ [cl])]"
  proof -
    have "[off..<Suc (off + length mid + 1)]
        = [off..<off + length mid + 1] @ [off + length mid + 1]"
      by (rule upt_Suc_append) simp
    moreover have "[off..<off + length mid + 1] = off # [Suc off..<off + length mid + 1]"
      by (rule upt_conv_Cons) simp
    ultimately have u: "[off..<Suc (Suc (off + length mid))]
        = off # [Suc off..<Suc (off + length mid)] @ [Suc (off + length mid)]"
      by simp
    have "map line_id mid = [Suc off..<Suc (off + length mid)]"
      using mid by (simp add: segment_ok_def)
    with s(3) cl(2) u show ?thesis by simp
  qed
  have s_closed: "block_closed off (s # mid @ [cl]) s"
    unfolding block_closed_def
  proof (intro exI conjI)
    show "s # mid @ [cl] = [] @ [s] @ mid @ [cl] @ []" by simp
    show "blockEnd s = Some (off + length ([]::JsonLine list) + length mid + 1)"
      using s(4) by simp
    show "closes s cl" by (rule cl(1))
  qed
  have mid_closed: "block_closed off (s # mid @ [cl]) l" if "l \<in> set mid" "canFold l" for l
  proof -
    from mid that have "block_closed (off + 1) mid l" by (simp add: segment_ok_def)
    then have "block_closed (off + length [s]) mid l" by simp
    then have "block_closed off ([s] @ mid) l" by (rule block_closed_append_left)
    then have "block_closed off (([s] @ mid) @ [cl]) l" by (rule block_closed_append_right)
    then show ?thesis by simp
  qed
  have closed: "\<forall>l \<in> set (s # mid @ [cl]). canFold l \<longrightarrow> block_closed off (s # mid @ [cl]) l"
    using s_closed mid_closed ncl by auto
  have sm: "\<forall>l \<in> set mid. canFold l \<longrightarrow> (\<exists>k. c + 1 \<le> k \<and> k < c' \<and> blockId l = block_name k)"
    using mid by (simp add: segment_ok_def)
  have fresh: "block_name c \<notin> set (map blockId (filter canFold mid))"
  proof
    assume "block_name c \<in> set (map blockId (filter canFold mid))"
    then obtain l where l: "l \<in> set mid" "canFold l" "blockId l = block_name c" by auto
    with sm obtain k where k: "c + 1 \<le> k" "blockId l = block_name k" by blast
    with l have "c = k" by (intro block_name_inj) simp
    with k show False by simp
  qed
  have dm: "distinct (map blockId (filter canFold mid))"
    using mid by (simp add: segment_ok_def)
  have "map blockId (filter canFold (s # mid @ [cl])) = block_name c # map blockId (filter canFold mid)"
    using s(1,2) ncl by simp
  with fresh dm have dist: "distinct (map blockId (filter canFold (s # mid @ [cl])))"
    by simp
  have names: "\<forall>l \<in> set (s # mid @ [cl]). canFold l
      \<longrightarrow> (\<exists>k. c \<le> k \<and> k < c' \<and> blockId l = block_name k)"
  proof (intro ballI impI)
    fix l assume "l \<in> set (s # mid @ [cl])" and f: "canFold l"
    with ncl consider "l = s" | "l \<in> set mid" by auto
    then show "\<exists>k. c \<le> k \<and> k < c' \<and> blockId l = block_name k"
    proof cases
      case 1
      with s(2) le show ?thesis by (intro exI [of _ c]) simp
    next
      case 2
      with sm f obtain k where "c + 1 \<le> k" "k < c'" "blockId l = block_name k" by blast
      then show ?thesis by (intro exI [of _ k]) simp
    qed
  qed
  from ids closed dist names show ?thesis unfolding segment_ok_def by blast
qed

lemma appends_refl: "appends st st"
  unfolding appends_def by (intro exI [of _ "[]"]) (simp add: segment_ok_Nil)

lemma appends_trans:
  assumes "appends a b" and "appends b c"
  shows "appends a c"
proof -
  from assms(1) obtain xs where xs: "result b = result a @ xs"
    and le1: "blockIdCounter a \<le> blockIdCounter b"
    and sx: "segment_ok (length (result a)) (blockIdCounter a) (blockIdCounter b) xs"
    unfolding appends_def by blast
  from assms(2) obtain ys where ys: "result c = result b @ ys"
    and le2: "blockIdCounter b \<le> blockIdCounter c"
    and sy: "segment_ok (length (result b)) (blockIdCounter b) (blockIdCounter c) ys"
    unfolding appends_def by blast
  from sy xs have sy': "segment_ok (length (result a) + length xs) (blockIdCounter b) (blockIdCounter c) ys"
    by simp
  have "segment_ok (length (result a)) (blockIdCounter a) (blockIdCounter c) (xs @ ys)"
    using sx sy' le1 le2 by (rule segment_ok_append)
  moreover have "result c = result a @ (xs @ ys)" using xs ys by simp
  moreover have "blockIdCounter a \<le> blockIdCounter c" using le1 le2 by simp
  ultimately show ?thesis unfolding appends_def by blast
qed

lemma appends_push_line: "appends st (push_line ind h st)"
  unfolding appends_def
proof (intro exI conjI)
  let ?l = "\<lparr>line_id = length (result st), lineNumber = next_lineNumber st, indent = ind,
             html = h, canFold = False, blockId = '''', blockEnd = None,
             collapsedInfo = None, closingBracket = None, trailingComma = None\<rparr>"
  show "result (push_line ind h st) = result st @ [?l]" by (simp add: push_line_def)
  show "blockIdCounter st \<le> blockIdCounter (push_line ind h st)" by (simp add: push_line_def)
  have "segment_ok (length (result st)) (blockIdCounter st) (blockIdCounter st) [?l]"
    by (rule segment_ok_plain) simp_all
  then show "segment_ok (length (result st)) (blockIdCounter st)
      (blockIdCounter (push_line ind h st)) [?l]"
    by (simp add: push_line_def)
qed

lemma appends_block:
  assumes inner: "appends
      (push_block_start ind h (block_name (blockIdCounter st)) info closing comma
         (st\<lparr>blockIdCounter := blockIdCounter st + 1\<rparr>)) st3"
  shows "appends st
      (set_blockEnd (length (result st))
         (push_line ind (getTokenHtml closing TBracket @ comma) st3))"
proof -
  let ?c = "blockIdCounter st"
  let ?off = "length (result st)"
  let ?start = "\<lparr>line_id = ?off, lineNumber = next_lineNumber st, indent = ind,
             html = h, canFold = True, blockId = block_name ?c, blockEnd = None,
             collapsedInfo = Some info, closingBracket = Some closing,
             trailingComma = Some comma\<rparr>"
  from inner obtain mid where r3: "result st3 = (result st @ [?start]) @ mid"
    and le: "?c + 1 \<le> blockIdCounter st3"
    and sm: "segment_ok (?off + 1) (?c + 1) (blockIdCounter st3) mid"
    unfolding appends_def by (auto simp: push_block_start_def)
  let ?close = "\<lparr>line_id = length (result st3), lineNumber = next_lineNumber st3, indent = ind,
             html = getTokenHtml closing TBracket @ comma, canFold = False, blockId = '''',
             blockEnd = None, collapsedInfo = None, closingBracket = None,
             trailingComma = None\<rparr>"
  let ?st4 = "push_line ind (getTokenHtml closing TBracket @ comma) st3"
  let ?start' = "?start\<lparr>blockEnd := Some (?off + length mid + 1)\<rparr>"
  have r4: "result ?st4 = result st @ ?start # mid @ [?close]"
    using r3 by (simp add: push_line_def)
  have len4: "length (result ?st4) - 1 = ?off + length mid + 1"
    using r4 by simp
  have "(result ?st4) [?off := (result ?st4 ! ?off)\<lparr>blockEnd := Some (length (result ?st4) - 1)\<rparr>]
      = result st @ ?start' # mid @ [?close]"
    unfolding len4 unfolding r4 by (simp add: list_update_append nth_append)
  then have r5: "result (set_blockEnd ?off ?st4) = result st @ ?start' # mid @ [?close]"
    by (simp add: set_blockEnd_def)
  have c5: "blockIdCounter (set_blockEnd ?off ?st4) = blockIdCounter st3"
    by (simp add: set_blockEnd_def push_line_def)
  have "segment_ok ?off ?c (blockIdCounter st3) (?start' # mid @ [?close])"
  proof (rule segment_ok_wrap [OF sm le])
    show "canFold ?start'" by simp
    show "blockId ?start' = block_name ?c" by simp
    show "line_id ?start' = ?off" by simp
    show "blockEnd ?start' = Some (?off + length mid + 1)" by simp
    show "closes ?start' ?close" by (simp add: closes_def)
    show "line_id ?close = ?off + length mid + 1" using r3 by simp
  qed
  with r5 c5 le show ?thesis
    unfolding appends_def by (intro exI [of _ "?start' # mid @ [?close]"]) simp
qed

lemma process_appends:
  "appends st (processValue v ind isLast keyPrefix st)"
  "appends st (processItems items ind st)"
  "appends st (processEntries entries ind st)"
proof (induction v ind isLast keyPrefix st and items ind st and entries ind st
       rule: processValue_processItems_processEntries.induct)
  case (1 ind isLast keyPrefix st)
  show ?case by (simp add: appends_push_line)
next
  case (2 b ind isLast keyPrefix st)
  show ?case by (simp add: appends_push_line)
next
  case (3 n ind isLast keyPrefix st)
  show ?case by (simp add: appends_push_line)
next
  case (4 s ind isLast keyPrefix st)
  show ?case by (simp add: appends_push_line)
next
  case (5 items ind isLast keyPrefix st)
  show ?case
  proof (cases "length items = 0")
    case True
    then show ?thesis by (simp add: appends_push_line)
  next
    case False
    let ?st1 = "st\<lparr>blockIdCounter := blockIdCounter st + 1\<rparr>"
    have g: "(block_name (blockIdCounter st), ?st1) = getBlockId st"
      by (simp add: getBlockId_def)
    let ?st2 = "push_block_start ind (keyPrefix @ getTokenHtml ''['' TBracket)
                  (block_name (blockIdCounter st))
                  (show_nat (length items) @ '' items'') '']'' (comma_of isLast) ?st1"
    have "appends ?st2 (processItems items (ind + 1) ?st2)"
      using "5.IH" [OF False g refl refl refl] .
    from appends_block [OF this] False show ?thesis
      by (simp add: getBlockId_def Let_def)
  qed
next
  case (6 plain entries ind isLast keyPrefix st)
  show ?case
  proof (cases "length entries = 0")
    case True
    then show ?thesis by (simp add: appends_push_line)
  next
    case False
    let ?st1 = "st\<lparr>blockIdCounter := blockIdCounter st + 1\<rparr>"
    have g: "(block_name (blockIdCounter st), ?st1) = getBlockId st"
      by (simp add: getBlockId_def)
    let ?st2 = "push_block_start ind (keyPrefix @ getTokenHtml ''{'' TBracket)
                  (block_name (blockIdCounter st))
                  (show_nat (length entries) @ '' keys'') ''}'' (comma_of isLast) ?st1"
    have "appends ?st2 (processEntries entries (ind + 1) ?st2)"
      using "6.IH" [OF False g refl refl refl] .
    from appends_block [OF this] False show ?thesis
      by (simp add: getBlockId_def Let_def)
  qed
next
  case (7 s ind isLast keyPrefix st)
  show ?case by (simp add: appends_push_line)
next
  case (8 ind st)
  show ?case by (simp add: appends_refl)
next
  case (9 item rest ind st)
  from appends_trans [OF "9.IH"(1) "9.IH"(2)] show ?case by simp
next
  case (10 ind st)
  show ?case by (simp add: appends_refl)
next
  case (11 key v rest ind st)
  from appends_trans [OF "11.IH"(1) "11.IH"(2)] show ?case by simp
qed

lemma parseJsonToLines_segment:
  "\<exists>c. segment_ok 0 0 c (parseJsonToLines v)"
proof -
  let ?init = "\<lparr>result = [], next_lineNumber = 1, blockIdCounter = 0\<rparr>"
  from process_appends(1) [of ?init v 0 True "''''"] show ?thesis
    unfolding appends_def parseJsonToLines_def by auto
qed

lemma add_hidden_range: "add_hidden i e hidden = hidden \<union> {i..<e}"
proof (induction i e hidden rule: add_hidden.induct)
  case (1 idx e hidden)
  show ?case
  proof (cases "idx < e")
    case True
    then have "{idx..<e} = insert idx {idx + 1..<e}" by auto
    with True "1.IH" show ?thesis by (subst add_hidden.simps) auto
  next
    case False
    then show ?thesis by (subst add_hidden.simps) simp
  qed
qed

lemma distinct_map_eq:
  "distinct (map f xs) \<Longrightarrow> x \<in> set xs \<Longrightarrow> y \<in> set xs \<Longrightarrow> f x = f y \<Longrightarrow> x = y"
  by (auto simp: distinct_map dest: inj_onD)

lemma find_Some_in: "List.find P xs = Some x \<Longrightarrow> P x \<and> x \<in> set xs"
  by (induction xs) (auto split: if_splits)

lemma segment_unique:
  assumes "segment_ok off c c' lines" and "x \<in> set lines" "canFold x"
    and "y \<in> set lines" "canFold y" and "blockId x = blockId y"
  shows "x = y"
proof -
  from assms(1) have "distinct (map blockId (filter canFold lines))"
    by (simp add: segment_ok_def)
  moreover have "x \<in> set (filter canFold lines)" "y \<in> set (filter canFold lines)"
    using assms by simp_all
  ultimately show ?thesis using assms(6) by (rule distinct_map_eq)
qed

lemma segment_find:
  assumes "segment_ok off c c' lines" and "l \<in> set lines" and "canFold l"
  shows "List.find (\<lambda>x. canFold x \<and> blockId x = blockId l) lines = Some l"
proof (cases "List.find (\<lambda>x. canFold x \<and> blockId x = blockId l) lines")
  case None
  with assms(2,3) show ?thesis by (auto simp: find_None_iff)
next
  case (Some x)
  from find_Some_in [OF Some] have "x \<in> set lines" "canFold x" "blockId x = blockId l"
    by simp_all
  with assms have "x = l" by (intro segment_unique [OF assms(1)]) simp_all
  with Some show ?thesis by simp
qed

lemma segment_block:
  assumes seg: "segment_ok 0 c c' lines" and l: "l \<in> set lines" "canFold l"
  shows "\<exists>e. blockEnd l = Some e \<and> line_id l < e \<and> e < length lines
           \<and> lines ! line_id l = l \<and> closes l (lines ! e)"
proof -
  from seg l have "block_closed 0 lines l" by (simp add: segment_ok_def)
  then obtain pre mid cl post where dec: "lines = pre @ [l] @ mid @ [cl] @ post"
    and e: "blockEnd l = Some (length pre + length mid + 1)" and cl: "closes l cl"
    unfolding block_closed_def by auto
  from seg have ids: "map line_id lines = [0..<length lines]" by (simp add: segment_ok_def)
  have at: "lines ! length pre = l" using dec by (simp add: nth_append)
  have "length pre < length lines" using dec by simp
  then have "line_id (lines ! length pre) = length pre"
    using ids by (metis add_0 nth_map nth_upt)
  with at have id: "line_id l = length pre" by simp
  have "lines = (pre @ [l] @ mid) @ cl # post" using dec by simp
  then have "lines ! length (pre @ [l] @ mid) = cl" by (metis nth_append_length)
  then have ce: "lines ! (length pre + length mid + 1) = cl" by simp
  have lt: "length pre + length mid + 1 < length lines" using dec by simp
  from e id at ce cl lt show ?thesis by simp
qed

lemma block_range_of:
  assumes seg: "segment_ok 0 c c' lines" and l: "l \<in> set lines" "canFold l"
    and e: "blockEnd l = Some e"
  shows "block_range lines (blockId l) = {i. line_id l < i \<and> i < e}"
proof -
  have u: "x = l" if "x \<in> set lines" "canFold x" "blockId x = blockId l" for x
    using that l by (intro segment_unique [OF seg]) simp_all
  show ?thesis
  proof (intro set_eqI iffI)
    fix i assume "i \<in> block_range lines (blockId l)"
    then obtain x e' where x: "x \<in> set lines" "canFold x" "blockId x = blockId l"
      and r: "blockEnd x = Some e'" "line_id x < i" "i < e'"
      unfolding block_range_def by blast
    from u [OF x] r e show "i \<in> {i. line_id l < i \<and> i < e}" by simp
  next
    fix i assume "i \<in> {i. line_id l < i \<and> i < e}"
    with l e show "i \<in> block_range lines (blockId l)"
      unfolding block_range_def by blast
  qed
qed

lemma hide_block_range:
  assumes seg: "segment_ok 0 c c' lines"
  shows "hide_block lines b hidden = hidden \<union> block_range lines b"
proof (cases "List.find (\<lambda>x. canFold x \<and> blockId x = b) lines")
  case None
  then have "\<not> (\<exists>x. x \<in> set lines \<and> canFold x \<and> blockId x = b)"
    by (simp add: find_None_iff)
  then have "block_range lines b = {}"
    unfolding block_range_def by blast
  moreover have "hide_block lines b hidden = hidden"
    using None by (simp add: hide_block_def)
  ultimately show ?thesis by simp
next
  case (Some x)
  from find_Some_in [OF Some] have x: "x \<in> set lines" "canFold x" and b: "blockId x = b"
    by simp_all
  from segment_block [OF seg x] obtain e where e: "blockEnd x = Some e" by blast
  have "block_range lines (blockId x) = {i. line_id x < i \<and> i < e}"
    using seg x e by (rule block_range_of)
  moreover have "{i. line_id x < i \<and> i < e} = {line_id x + 1..<e}" by auto
  ultimately have r: "block_range lines b = {line_id x + 1..<e}" using b by simp
  have "hide_block lines b hidden = add_hidden (line_id x + 1) e hidden"
    using Some e by (simp add: hide_block_def)
  then show ?thesis unfolding r by (simp only: add_hidden_range)
qed

lemma fold_hide_block:
  assumes seg: "segment_ok 0 c c' lines"
  shows "fold (hide_block lines) bs hidden = hidden \<union> (\<Union>b \<in> set bs. block_range lines b)"
proof (induction bs arbitrary: hidden)
  case Nil
  show ?case by simp
next
  case (Cons b bs)
  have "fold (hide_block lines) (b # bs) hidden
      = fold (hide_block lines) bs (hide_block lines b hidden)" by simp
  also have "\<dots> = hide_block lines b hidden \<union> (\<Union>b \<in> set bs. block_range lines b)"
    by (rule Cons.IH)
  also have "\<dots> = hidden \<union> (\<Union>b \<in> set (b # bs). block_range lines b)"
    unfolding hide_block_range [OF seg] by auto
  finally show ?case .
qed

lemma hiddenLineIds_union:
  assumes "segment_ok 0 c c' lines"
  shows "hiddenLineIds lines bs = (\<Union>b \<in> set bs. block_range lines b)"
  by (simp add: hiddenLineIds_def fold_hide_block [OF assms])

lemma toggleFold_set:
  "bid \<noteq> [] \<Longrightarrow>
   set (toggleFold bid prev) = (if bid \<in> set prev then set prev - {bid} else insert bid (set prev))"
  by (simp add: toggleFold_def)

lemma block_named:
  assumes "segment_ok off c c' lines" and "l \<in> set lines" and "canFold l"
  shows "blockId l \<noteq> []"
proof -
  from assms obtain k where "blockId l = block_name k"
    unfolding segment_ok_def by blast
  then show ?thesis by (simp add: block_name_nonempty)
qed

text \<open>
  Claim C1. Let \<open>l\<close> be a foldable line of the lines produced for a JSON value. Its
  block ends at a later line \<open>e\<close>, the closing-bracket line of the block, and ids are
  positions. Collapsing the block from the state with nothing collapsed hides exactly
  the lines with ids strictly between that of \<open>l\<close> and \<open>e\<close>; \<open>l\<close> and the closing line
  stay visible; toggling the block again shows all lines. For any collection of
  collapsed blocks the hidden ids are the union of the ranges of the blocks, and a
  toggle adds the block to the collection or removes it.
\<close>

theorem fold_hides_block:
  assumes "l \<in> set (parseJsonToLines v)" and "canFold l"
  shows "\<exists>e. blockEnd l = Some e \<and> line_id l < e \<and> e < length (parseJsonToLines v)
      \<and> parseJsonToLines v ! line_id l = l
      \<and> closes l (parseJsonToLines v ! e)
      \<and> map line_id (parseJsonToLines v) = [0..<length (parseJsonToLines v)]
      \<and> visibleLines (KindJson v) (parseJsonToLines v) (toggleFold (blockId l) [])
          = filter (\<lambda>x. \<not> (line_id l < line_id x \<and> line_id x < e)) (parseJsonToLines v)
      \<and> l \<in> set (visibleLines (KindJson v) (parseJsonToLines v) (toggleFold (blockId l) []))
      \<and> parseJsonToLines v ! e
          \<in> set (visibleLines (KindJson v) (parseJsonToLines v) (toggleFold (blockId l) []))
      \<and> visibleLines (KindJson v) (parseJsonToLines v)
            (toggleFold (blockId l) (toggleFold (blockId l) [])) = parseJsonToLines v
      \<and> block_range (parseJsonToLines v) (blockId l) = {i. line_id l < i \<and> i < e}
      \<and> (\<forall>bs. visibleLines (KindJson v) (parseJsonToLines v) bs
            = filter (\<lambda>x. line_id x \<notin> (\<Union>b \<in> set bs. block_range (parseJsonToLines v) b))
                (parseJsonToLines v))
      \<and> (\<forall>bs. set (toggleFold (blockId l) bs)
            = (if blockId l \<in> set bs then set bs - {blockId l} else insert (blockId l) (set bs)))"
proof -
  let ?ls = "parseJsonToLines v"
  obtain c where seg: "segment_ok 0 0 c ?ls" using parseJsonToLines_segment by blast
  from segment_block [OF seg assms] obtain e where e: "blockEnd l = Some e"
    and lt: "line_id l < e" and len: "e < length ?ls"
    and at: "?ls ! line_id l = l" and cl: "closes l (?ls ! e)" by blast
  have ids: "map line_id ?ls = [0..<length ?ls]" using seg by (simp add: segment_ok_def)
  have ide: "line_id (?ls ! e) = e" using ids len by (metis add_0 nth_map nth_upt)
  have named: "blockId l \<noteq> []" using seg assms by (rule block_named)
  have range: "block_range ?ls (blockId l) = {i. line_id l < i \<and> i < e}"
    using seg assms e by (rule block_range_of)
  have vis: "visibleLines (KindJson v) ?ls bs
      = filter (\<lambda>x. line_id x \<notin> (\<Union>b \<in> set bs. block_range ?ls b)) ?ls" for bs
    by (simp add: visibleLines_def hiddenLineIds_union [OF seg])
  have t1: "toggleFold (blockId l) [] = [blockId l]"
    using named by (simp add: toggleFold_def)
  have t2: "toggleFold (blockId l) (toggleFold (blockId l) []) = []"
    using named by (simp add: toggleFold_def)
  have one: "visibleLines (KindJson v) ?ls (toggleFold (blockId l) [])
      = filter (\<lambda>x. \<not> (line_id l < line_id x \<and> line_id x < e)) ?ls"
    unfolding t1 vis by (simp add: range)
  have l_vis: "l \<in> set (visibleLines (KindJson v) ?ls (toggleFold (blockId l) []))"
    unfolding one using assms(1) by simp
  have e_vis: "?ls ! e \<in> set (visibleLines (KindJson v) ?ls (toggleFold (blockId l) []))"
    unfolding one using len ide by simp
  have again: "visibleLines (KindJson v) ?ls (toggleFold (blockId l) (toggleFold (blockId l) []))
      = ?ls"
    unfolding t2 vis by simp
  have tog: "set (toggleFold (blockId l) bs)
      = (if blockId l \<in> set bs then set bs - {blockId l} else insert (blockId l) (set bs))" for bs
    using named by (rule toggleFold_set)
  show ?thesis
  proof (intro exI [of _ e] conjI allI)
    show "blockEnd l = Some e" by (rule e)
    show "line_id l < e" by (rule lt)
    show "e < length ?ls" by (rule len)
    show "?ls ! line_id l = l" by (rule at)
    show "closes l (?ls ! e)" by (rule cl)
    show "map line_id ?ls = [0..<length ?ls]" by (rule ids)
    show "visibleLines (KindJson v) ?ls (toggleFold (blockId l) [])
      = filter (\<lambda>x. \<not> (line_id l < line_id x \<and> line_id x < e)) ?ls" by (rule one)
    show "l \<in> set (visibleLines (KindJson v) ?ls (toggleFold (blockId l) []))" by (rule l_vis)
    show "?ls ! e \<in> set (visibleLines (KindJson v) ?ls (toggleFold (blockId l) []))"
      by (rule e_vis)
    show "visibleLines (KindJson v) ?ls (toggleFold (blockId l) (toggleFold (blockId l) []))
      = ?ls" by (rule again)
    show "block_range ?ls (blockId l) = {i. line_id l < i \<and> i < e}" by (rule range)
    show "visibleLines (KindJson v) ?ls bs
      = filter (\<lambda>x. line_id x \<notin> (\<Union>b \<in> set bs. block_range ?ls b)) ?ls" for bs
      by (rule vis)
    show "set (toggleFold (blockId l) bs)
      = (if blockId l \<in> set bs then set bs - {blockId l} else insert (blockId l) (set bs))" for bs
      by (rule tog)
  qed
qed

lemma nested_sample_lines:
  "parseJsonToLines nested_sample =
    [\<lparr>line_id = 0, lineNumber = 1, indent = 0, html = getTokenHtml ''['' TBracket,
      canFold = True, blockId = ''block-0'', blockEnd = Some 6, collapsedInfo = Some ''3 items'',
      closingBracket = Some '']'', trailingComma = Some ''''\<rparr>,
     \<lparr>line_id = 1, lineNumber = 2, indent = 1, html = getTokenHtml ''1'' TNumber @ '','',
      canFold = False, blockId = '''', blockEnd = None, collapsedInfo = None,
      closingBracket = None, trailingComma = None\<rparr>,
     \<lparr>line_id = 2, lineNumber = 3, indent = 1, html = getTokenHtml ''['' TBracket,
      canFold = True, blockId = ''block-1'', blockEnd = Some 4, collapsedInfo = Some ''1 items'',
      closingBracket = Some '']'', trailingComma = Some '',''\<rparr>,
     \<lparr>line_id = 3, lineNumber = 4, indent = 2, html = getTokenHtml ''null'' TNull,
      canFold = False, blockId = '''', blockEnd = None, collapsedInfo = None,
      closingBracket = None, trailingComma = None\<rparr>,
     \<lparr>line_id = 4, lineNumber = 5, indent = 1, html = getTokenHtml '']'' TBracket @ '','',
      canFold = False, blockId = '''', blockEnd = None, collapsedInfo = None,
      closingBracket = None, trailingComma = None\<rparr>,
     \<lparr>line_id = 5, lineNumber = 6, indent = 1, html = getTokenHtml ''true'' TBoolean,
      canFold = False, blockId = '''', blockEnd = None, collapsedInfo = None,
      closingBracket = None, trailingComma = None\<rparr>,
     \<lparr>line_id = 6, lineNumber = 7, indent = 0, html = getTokenHtml '']'' TBracket,
      canFold = False, blockId = '''', blockEnd = None, collapsedInfo = None,
      closingBracket = None, trailingComma = None\<rparr>]"
  by (simp add: parseJsonToLines_def nested_sample_def getBlockId_def push_line_def
      push_block_start_def set_blockEnd_def comma_of_def block_name_def show_nat.simps Let_def digit_chars)

theorem fold_hides_block_witness:
  "parseJsonToLines nested_sample ! 2 \<in> set (parseJsonToLines nested_sample)
   \<and> canFold (parseJsonToLines nested_sample ! 2)
   \<and> blockId (parseJsonToLines nested_sample ! 2) = ''block-1''
   \<and> blockEnd (parseJsonToLines nested_sample ! 2) = Some 4
   \<and> map line_id (visibleLines (KindJson nested_sample) (parseJsonToLines nested_sample)
          (toggleFold ''block-1'' [])) = [0, 1, 2, 4, 5, 6]
   \<and> map line_id (visibleLines (KindJson nested_sample) (parseJsonToLines nested_sample)
          (toggleFold ''block-1'' (toggleFold ''block-1'' []))) = [0, 1, 2, 3, 4, 5, 6]"
proof -
  let ?ls = "parseJsonToLines nested_sample"
  let ?l = "?ls ! 2"
  have a: "?l \<in> set ?ls" by (simp add: nested_sample_lines)
  have b: "canFold ?l" by (simp add: nested_sample_lines)
  have c: "blockId ?l = ''block-1''" by (simp add: nested_sample_lines)
  have d: "blockEnd ?l = Some 4" by (simp add: nested_sample_lines)
  have i: "line_id ?l = 2" by (simp add: nested_sample_lines)
  from fold_hides_block [OF a b] obtain e where e: "blockEnd ?l = Some e"
    and one: "visibleLines (KindJson nested_sample) ?ls (toggleFold (blockId ?l) [])
          = filter (\<lambda>x. \<not> (line_id ?l < line_id x \<and> line_id x < e)) ?ls"
    and again: "visibleLines (KindJson nested_sample) ?ls
            (toggleFold (blockId ?l) (toggleFold (blockId ?l) [])) = ?ls"
    by blast
  from e d have e4: "e = 4" by simp
  have v1: "map line_id (visibleLines (KindJson nested_sample) ?ls (toggleFold ''block-1'' []))
      = [0, 1, 2, 4, 5, 6]"
    using one unfolding c i e4 by (simp add: nested_sample_lines)
  have v2: "map line_id (visibleLines (KindJson nested_sample) ?ls
          (toggleFold ''block-1'' (toggleFold ''block-1'' []))) = [0, 1, 2, 3, 4, 5, 6]"
    using again unfolding c by (simp add: nested_sample_lines)
  from a b c d v1 v2 show ?thesis by blast
qed


section \<open>JSON viewer: what is rendered\<close>

text \<open>
  Claim C9. The result of \<open>escapeHtml\<close> contains none of the characters \<open><\<close>, \<open>>\<close>
  and the double quote; it is the input with each character replaced by its entity
  once, the ampersand included. \<open>getTokenHtml\<close> puts its text, so escaped, in a span.
  Every line produced for a JSON value, and the HTML set as its content whether the line
  is collapsed or not, is a sequence of such spans followed by at most a comma; and
  every key and every string value of the data, in double quotes, is found in the HTML
  of some line as the span of its escaped text.
\<close>

theorem escapeHtml_tokens:
  "CHR ''<'' \<notin> set (escapeHtml s) \<and> CHR ''>'' \<notin> set (escapeHtml s)
   \<and> dquote \<notin> set (escapeHtml s)
   \<and> escapeHtml s = concat (map escape_char s)
   \<and> getTokenHtml s ty
       = ''<span class='' @ [dquote] @ classMap ty @ [dquote] @ ''>''
         @ concat (map escape_char s) @ ''</span>''
   \<and> (\<forall>l \<in> set (parseJsonToLines v).
         made_of_tokens (html l)
         \<and> made_of_tokens (displayHtml (render_line collapsed l)))
   \<and> (\<forall>k \<in> set (keys_of v). \<exists>l \<in> set (parseJsonToLines v). \<exists>pre post.
         html l = pre @ escaped_span ([dquote] @ k @ [dquote]) TKey @ post)
   \<and> (\<forall>t \<in> set (strings_of v). \<exists>l \<in> set (parseJsonToLines v). \<exists>pre post.
         html l = pre @ escaped_span ([dquote] @ t @ [dquote]) TString @ post)"
proof -
  have lines: "made_of_tokens (html l) \<and> made_of_tokens (displayHtml (render_line collapsed l))"
    if "l \<in> set (parseJsonToLines v)" for l
  proof -
    from that have t: "line_of_tokens l" by (rule parseJsonToLines_tokens)
    then have "made_of_tokens (html l)" by (simp add: line_of_tokens_def)
    with displayHtml_tokens [OF t] show ?thesis by simp
  qed
  have tok: "getTokenHtml s ty
       = ''<span class='' @ [dquote] @ classMap ty @ [dquote] @ ''>''
         @ concat (map escape_char s) @ ''</span>''"
    by (simp add: getTokenHtml_escaped escaped_span_def)
  from lines tok escapeHtml_safe [of s] escapeHtml_chars [of s] parseJsonToLines_embeds [of v]
  show ?thesis by blast
qed

lemma markup_sample_line:
  "parseJsonToLines markup_sample ! 1 =
     \<lparr>line_id = 1, lineNumber = 2, indent = 1,
      html = key_prefix ''<k>'' @ getTokenHtml ([dquote] @ ''a&b'' @ [dquote]) TString,
      canFold = False, blockId = '''', blockEnd = None, collapsedInfo = None,
      closingBracket = None, trailingComma = None\<rparr>"
  by (simp add: parseJsonToLines_def markup_sample_def getBlockId_def push_line_def
      push_block_start_def set_blockEnd_def comma_of_def Let_def nth_append)

lemma markup_sample_length: "length (parseJsonToLines markup_sample) = 3"
  by (simp add: parseJsonToLines_def markup_sample_def getBlockId_def push_line_def
      push_block_start_def set_blockEnd_def comma_of_def Let_def)

theorem escapeHtml_tokens_witness:
  "escapeHtml ''<b>&'' = ''&lt;b&gt;&amp;''
   \<and> CHR ''<'' \<notin> set (escapeHtml ''<b>&'')
   \<and> parseJsonToLines markup_sample ! 1 \<in> set (parseJsonToLines markup_sample)
   \<and> html (parseJsonToLines markup_sample ! 1)
       = key_prefix ''<k>'' @ getTokenHtml ([dquote] @ ''a&b'' @ [dquote]) TString
   \<and> escapeHtml ([dquote] @ ''<k>'' @ [dquote]) = ''&quot;&lt;k&gt;&quot;''
   \<and> getTokenHtml ''<k>'' TKey
       = ''<span class='' @ [dquote] @ ''token-key'' @ [dquote] @ ''>&lt;k&gt;</span>''
   \<and> keys_of markup_sample = [''<k>''] \<and> strings_of markup_sample = [''a&b'']
   \<and> made_of_tokens (html (parseJsonToLines markup_sample ! 1))"
proof -
  have a: "parseJsonToLines markup_sample ! 1 \<in> set (parseJsonToLines markup_sample)"
    by (rule nth_mem) (simp add: markup_sample_length)
  have b: "escapeHtml ''<b>&'' = ''&lt;b&gt;&amp;''"
    by (simp add: escapeHtml_chars escape_char_def dquote_def)
  have c: "escapeHtml ([dquote] @ ''<k>'' @ [dquote]) = ''&quot;&lt;k&gt;&quot;''"
    by (simp add: escapeHtml_chars escape_char_def dquote_def)
  have h: "html (parseJsonToLines markup_sample ! 1)
       = key_prefix ''<k>'' @ getTokenHtml ([dquote] @ ''a&b'' @ [dquote]) TString"
    by (simp only: markup_sample_line JsonLine.simps)
  from escapeHtml_tokens [where s = "''<b>&''" and v = markup_sample and collapsed = "[]"
      and ty = TString]
  have n: "CHR ''<'' \<notin> set (escapeHtml ''<b>&'')"
    and m: "\<forall>l \<in> set (parseJsonToLines markup_sample). made_of_tokens (html l)"
    by blast+
  have g: "getTokenHtml ''<k>'' TKey
       = ''<span class='' @ [dquote] @ ''token-key'' @ [dquote] @ ''>&lt;k&gt;</span>''"
    by (simp add: getTokenHtml_def escapeHtml_chars escape_char_def dquote_def)
  have k: "keys_of markup_sample = [''<k>'']" "strings_of markup_sample = [''a&b'']"
    by (simp_all add: markup_sample_def)
  from m a have "made_of_tokens (html (parseJsonToLines markup_sample ! 1))" by blast
  with a b c h n g k show ?thesis by blast
qed

lemma legacy_string_rejected:
  assumes "s \<noteq> []" and "JSON_parse js s = None"
  shows "JsonViewer_legacy js (DataString s) emptyText
     = Inr (if starts_like_json (String_trim js s) then ViewHighlighted (highlightJson js s)
            else ViewRaw None s)"
  using assms by (simp add: JsonViewer_legacy_def legacy_content_def Let_def)

lemma legacy_string_parsed:
  assumes "s \<noteq> []" and "JSON_parse js s = Some v"
    and "JSON_stringify_pretty js v = Stringified t" and "t \<noteq> []"
  shows "JsonViewer_legacy js (DataString s) emptyText
     = Inr (if starts_like_json (String_trim js t) then ViewHighlighted (highlightJson js t)
            else ViewRaw None t)"
  using assms
  by (simp add: JsonViewer_legacy_def legacy_content_def of_stringified_def Let_def)

lemma legacy_object:
  assumes "JSON_stringify_pretty js v = Stringified t" and "t \<noteq> []"
  shows "JsonViewer_legacy js (DataObject v) emptyText
     = Inr (if starts_like_json (String_trim js t) then ViewHighlighted (highlightJson js t)
            else ViewRaw None t)"
  using assms
  by (simp add: JsonViewer_legacy_def legacy_content_def of_stringified_def Let_def)

lemma legacy_no_banner:
  "JsonViewer_legacy js d emptyText \<noteq> Inr (ViewRaw (Some b) t)"
  by (auto simp: JsonViewer_legacy_def Let_def split: sum.splits option.splits)

lemma legacy_no_tree:
  "JsonViewer_legacy js d emptyText \<noteq> Inr (ViewTree ls)"
  by (auto simp: JsonViewer_legacy_def Let_def split: sum.splits option.splits)

text \<open>
  Claim C3, as amended. The viewer of components/ui/JsonViewer.tsx shows a string whose
  trimmed content is not empty and does not parse as the raw text, unchanged, with the
  warning banner; it shows a string that parses, or an object, as the tree, without a
  banner, unless the value is an empty plain object, for which it shows the empty
  placeholder. The older viewer of src/unnamed/part_001 has no banner and no tree: it
  shows a non-empty string that does not parse as text, unchanged when the trimmed text
  starts with neither a brace nor a bracket and line by line through \<open>highlightJson\<close>
  otherwise, and it shows a value that parses, or an object, in the same two ways as the
  text that \<open>JSON.stringify\<close> gives for it.
\<close>

theorem viewer_fallback:
  "(String_trim js s \<noteq> [] \<longrightarrow> JSON_parse js (String_trim js s) = None
      \<longrightarrow> JsonViewer js (DataString s) emptyText bs = ViewRaw (Some ''invalid JSON'') s)
   \<and> (String_trim js s \<noteq> [] \<longrightarrow> JSON_parse js (String_trim js s) = Some v
      \<longrightarrow> v \<noteq> JObject True []
      \<longrightarrow> JsonViewer js (DataString s) emptyText bs
          = ViewTree (map (render_line bs)
              (visibleLines (KindJson v) (parseJsonToLines v) bs)))
   \<and> (v \<noteq> JObject True []
      \<longrightarrow> JsonViewer js (DataObject v) emptyText bs
          = ViewTree (map (render_line bs)
              (visibleLines (KindJson v) (parseJsonToLines v) bs)))
   \<and> (String_trim js s \<noteq> [] \<longrightarrow> JSON_parse js (String_trim js s) = Some (JObject True [])
      \<longrightarrow> JsonViewer js (DataString s) emptyText bs = ViewEmpty emptyText)
   \<and> JsonViewer js (DataObject (JObject True [])) emptyText bs = ViewEmpty emptyText
   \<and> (s \<noteq> [] \<longrightarrow> JSON_parse js s = None
      \<longrightarrow> JsonViewer_legacy js (DataString s) emptyText
          = Inr (if starts_like_json (String_trim js s)
                 then ViewHighlighted (highlightJson js s) else ViewRaw None s))
   \<and> (s \<noteq> [] \<longrightarrow> JSON_parse js s = Some v
      \<longrightarrow> JSON_stringify_pretty js v = Stringified t \<longrightarrow> t \<noteq> []
      \<longrightarrow> JsonViewer_legacy js (DataString s) emptyText
          = Inr (if starts_like_json (String_trim js t)
                 then ViewHighlighted (highlightJson js t) else ViewRaw None t))
   \<and> (JSON_stringify_pretty js v = Stringified t \<longrightarrow> t \<noteq> []
      \<longrightarrow> JsonViewer_legacy js (DataObject v) emptyText
          = Inr (if starts_like_json (String_trim js t)
                 then ViewHighlighted (highlightJson js t) else ViewRaw None t))
   \<and> (\<forall>b r. JsonViewer_legacy js d emptyText \<noteq> Inr (ViewRaw (Some b) r))
   \<and> (\<forall>ls. JsonViewer_legacy js d emptyText \<noteq> Inr (ViewTree ls))"
proof -
  have empty_iff: "(isPlainObject v \<and> length (object_keys v) = 0) = (v = JObject True [])"
    by (cases v) (auto simp: isPlainObject_def object_keys_def)
  have raw: "JsonViewer js (DataString s) emptyText bs = ViewRaw (Some ''invalid JSON'') s"
    if "String_trim js s \<noteq> []" "JSON_parse js (String_trim js s) = None"
    using that by (simp add: JsonViewer_def normalized_def parseErrorMessage_def Let_def)
  have tree_s: "JsonViewer js (DataString s) emptyText bs
          = ViewTree (map (render_line bs) (visibleLines (KindJson v) (parseJsonToLines v) bs))"
    if "String_trim js s \<noteq> []" "JSON_parse js (String_trim js s) = Some v"
      "v \<noteq> JObject True []"
    using that empty_iff
    by (simp add: JsonViewer_def normalized_def Let_def viewer_lines_def
        effectiveCollapsedBlocks_def)
  have tree_o: "JsonViewer js (DataObject v) emptyText bs
          = ViewTree (map (render_line bs) (visibleLines (KindJson v) (parseJsonToLines v) bs))"
    if "v \<noteq> JObject True []"
    using that empty_iff
    by (simp add: JsonViewer_def normalized_def Let_def viewer_lines_def
        effectiveCollapsedBlocks_def)
  have empty_s: "JsonViewer js (DataString s) emptyText bs = ViewEmpty emptyText"
    if "String_trim js s \<noteq> []" "JSON_parse js (String_trim js s) = Some (JObject True [])"
    using that
    by (simp add: JsonViewer_def normalized_def Let_def isPlainObject_def object_keys_def)
  have empty_o: "JsonViewer js (DataObject (JObject True [])) emptyText bs = ViewEmpty emptyText"
    by (simp add: JsonViewer_def normalized_def Let_def isPlainObject_def object_keys_def)
  note old = legacy_string_rejected [of s js emptyText]
    legacy_string_parsed [of s js v t emptyText] legacy_object [of js v t emptyText]
    legacy_no_banner [of js d emptyText] legacy_no_tree [of js d emptyText]
  show ?thesis
    using raw tree_s tree_o empty_s empty_o old by (intro conjI impI allI) blast+
qed

lemma example_trims:
  "ascii_trim '' oops '' = ''oops''" "ascii_trim ''{}'' = ''{}''" "ascii_trim ''null'' = ''null''"
  by (simp_all add: ascii_trim_def ascii_space_def)

text \<open>
  The claim as first stated fails in three places: the text \<open>{}\<close> parses, and the viewer
  shows the empty placeholder, not the tree, as it does for the empty object itself; the
  older viewer shows text that does not parse without a banner; and it shows text that
  parses as text, not as a tree.
\<close>

theorem viewer_empty_object_counterexample:
  "String_trim example_platform ''{}'' \<noteq> []
   \<and> JSON_parse example_platform (String_trim example_platform ''{}'') = Some (JObject True [])
   \<and> JsonViewer example_platform (DataString ''{}'') None [] = ViewEmpty None
   \<and> JsonViewer example_platform (DataObject (JObject True [])) None [] = ViewEmpty None
   \<and> String_trim example_platform '' oops '' \<noteq> []
   \<and> JSON_parse example_platform (String_trim example_platform '' oops '') = None
   \<and> JsonViewer_legacy example_platform (DataString '' oops '') None
       = Inr (ViewRaw None '' oops '')
   \<and> JSON_parse example_platform (String_trim example_platform ''null'') = Some JNull
   \<and> JsonViewer_legacy example_platform (DataString ''null'') None
       = Inr (ViewRaw None ''null'')"
  by (simp add: JsonViewer_def normalized_def Let_def isPlainObject_def object_keys_def
      example_platform_def example_trims JsonViewer_legacy_def legacy_content_def
      of_stringified_def starts_like_json_def)

theorem viewer_fallback_witness:
  "String_trim example_platform '' oops '' \<noteq> []
   \<and> JSON_parse example_platform (String_trim example_platform '' oops '') = None
   \<and> JsonViewer example_platform (DataString '' oops '') None []
       = ViewRaw (Some ''invalid JSON'') '' oops ''
   \<and> JSON_parse example_platform (String_trim example_platform ''null'') = Some JNull
   \<and> JsonViewer example_platform (DataString ''null'') None []
       = ViewTree (map (render_line [])
           (visibleLines (KindJson JNull) (parseJsonToLines JNull) []))
   \<and> JsonViewer example_platform (DataObject nested_sample) None []
       = ViewTree (map (render_line [])
           (visibleLines (KindJson nested_sample) (parseJsonToLines nested_sample) []))
   \<and> JsonViewer example_platform (DataObject (JObject False [])) None []
       = ViewTree (map (render_line [])
           (visibleLines (KindJson (JObject False [])) (parseJsonToLines (JObject False [])) []))
   \<and> JsonViewer example_platform (DataString ''{}'') None [] = ViewEmpty None
   \<and> JsonViewer_legacy example_platform (DataString '' oops '') None
       = Inr (ViewRaw None '' oops '')
   \<and> JSON_stringify_pretty example_platform JNull = Stringified ''null''
   \<and> JsonViewer_legacy example_platform (DataString ''null'') None
       = Inr (ViewRaw None ''null'')
   \<and> JsonViewer_legacy example_platform (DataObject (JObject True [])) None
       = Inr (ViewHighlighted [''{}''])"
proof -
  have a: "String_trim example_platform '' oops '' \<noteq> []"
    and b: "JSON_parse example_platform (String_trim example_platform '' oops '') = None"
    and c: "String_trim example_platform ''null'' \<noteq> []"
    and d: "JSON_parse example_platform (String_trim example_platform ''null'') = Some JNull"
    and e: "String_trim example_platform ''{}'' \<noteq> []"
    and f: "JSON_parse example_platform (String_trim example_platform ''{}'')
        = Some (JObject True [])"
    and g: "JSON_parse example_platform '' oops '' = None"
    and h: "JSON_parse example_platform ''null'' = Some JNull"
    and i: "JSON_stringify_pretty example_platform JNull = Stringified ''null''"
    and j: "JSON_stringify_pretty example_platform (JObject True []) = Stringified ''{}''"
    by (simp_all add: example_platform_def example_trims)
  have k: "nested_sample \<noteq> JObject True []" by (simp add: nested_sample_def)
  have st: "\<not> starts_like_json (String_trim example_platform '' oops '')"
    "\<not> starts_like_json (String_trim example_platform ''null'')"
    "starts_like_json (String_trim example_platform ''{}'')"
    by (simp_all add: example_platform_def example_trims starts_like_json_def)
  have hl: "highlightJson example_platform ''{}'' = [''{}'']"
    by (simp add: highlightJson_def highlight_rules_def example_platform_def)
  from viewer_fallback [where js = example_platform and s = "'' oops ''" and v = JNull
      and emptyText = None and bs = "[]" and t = "''null''" and d = DataNull]
    viewer_fallback [where js = example_platform and s = "''null''" and v = JNull
      and emptyText = None and bs = "[]" and t = "''null''" and d = DataNull]
    viewer_fallback [where js = example_platform and s = "''{}''" and v = nested_sample
      and emptyText = None and bs = "[]" and t = "''null''" and d = DataNull]
    viewer_fallback [where js = example_platform and s = "''{}''" and v = "JObject False []"
      and emptyText = None and bs = "[]" and t = "''null''" and d = DataNull]
    viewer_fallback [where js = example_platform and s = "''{}''" and v = "JObject True []"
      and emptyText = None and bs = "[]" and t = "''{}''" and d = DataNull]
    a b c d e f g h i j k st hl
  show ?thesis by simp
qed

end
